theory Spec2Isabelle
  imports Main "HOL-Library.AList"
begin

section \<open>Shared types (src/asi/types.ts)\<close>

text \<open>
  JavaScript strings are modelled as \<open>string\<close>; numbers that hold millisecond time stamps
  (\<open>Date.now()\<close>, \<open>lastHeartbeat\<close>, \<open>createdAt\<close>) as \<open>int\<close>. A \<open>Map\<close> is an association
  list in insertion order: \<open>Map.get\<close> is \<open>map_of\<close>, \<open>Map.set\<close> is \<open>AList.update\<close> (an existing
  key keeps its position, a new key goes to the end), \<open>Map.delete\<close> is \<open>AList.delete\<close> and
  \<open>Map.values()\<close> is \<open>map snd\<close>.

  Record fields that share a name in the source are told apart by a prefix:
  \<open>BotNetNode.status\<close> is \<open>nodeStatus\<close>, \<open>DistributedTask.status\<close> is \<open>taskStatus\<close>,
  \<open>MultiplexChannel.status\<close> is \<open>channelStatus\<close>, \<open>OrganizationContext.orgId\<close> is \<open>org_orgId\<close>
  and \<open>DistributedTask.type\<close> is \<open>taskType\<close>.
\<close>

datatype node_status = Online | Offline | Busy

datatype task_status = Pending | Processing | Completed | Failed

datatype channel_type = Agent2agent | Org2org | Sensor2agent | Broadcast

datatype channel_status = Active | Paused | Terminated

record OrganizationContext =
  org_orgId :: string
  name :: string
  tenantId :: string
  metadata :: "(string \<times> string) list"

record MultiplexChannel =
  sourceOrgId :: string
  targetOrgId :: string
  channelType :: channel_type
  channelStatus :: channel_status

record BotNetNode =
  nodeId :: string
  agentId :: string
  orgId :: string
  capabilities :: "string list"
  nodeStatus :: node_status
  lastHeartbeat :: int

record DistributedTask =
  taskId :: string
  taskType :: string
  priority :: int
  sourceNode :: string
  targetNodes :: "string list"
  payload :: string
  taskStatus :: task_status
  createdAt :: int
  completedAt :: "int option"

section \<open>String primitives used by the source\<close>

text \<open>\<open>String.prototype.includes\<close>: \<open>str_includes t s\<close> is \<open>t.includes(s)\<close>.\<close>

fun starts_with :: "string \<Rightarrow> string \<Rightarrow> bool" where
  "starts_with t [] = True"
| "starts_with [] (c # s) = False"
| "starts_with (d # t) (c # s) = (d = c \<and> starts_with t s)"

fun str_includes :: "string \<Rightarrow> string \<Rightarrow> bool" where
  "str_includes [] s = (s = [])"
| "str_includes (d # t) s = (starts_with (d # t) s \<or> str_includes t s)"

text \<open>\<open>String.prototype.split\<close> with a one-character separator; the result is never empty.\<close>

fun str_split :: "string \<Rightarrow> char \<Rightarrow> string list" where
  "str_split [] sep = [[]]"
| "str_split (c # cs) sep =
     (if c = sep then [] # str_split cs sep
      else (case str_split cs sep of [] \<Rightarrow> [[c]] | w # ws \<Rightarrow> (c # w) # ws))"

section \<open>BotNet coordinator (src/asi/cognitive/botnet.ts)\<close>

text \<open>
  The coordinator stores and mutates the very objects its callers hand in, so node and task
  objects live in two stores (\<open>nodeObj\<close>, \<open>taskObj\<close>) and the maps, the event payloads and the
  arguments of \<open>registerNode\<close> and \<open>createTask\<close> hold references into them.

  \<open>emitted\<close> is the sequence of events emitted so far. \<open>intervals\<close> are the live
  \<open>setInterval\<close> timers (handle and the node id their callback checks), \<open>timeouts\<close> the
  pending \<open>setTimeout\<close> completions (task id and node id). \<open>Date.now()\<close> is the parameter
  \<open>now\<close> of the operations that read the clock. The \<open>await\<close>s of \<open>createTask\<close> wait on
  functions that never suspend, so the operations are run to completion.
\<close>

type_synonym nref = nat
type_synonym tref = nat

datatype event =
    NodeRegistered nref
  | NodeUnregistered nref
  | NodeOffline nref
  | NodeOnline nref
  | TaskCreated tref
  | TaskFailed tref string
  | TaskAssigned tref nref
  | TaskCompleted tref nref

record coordinator =
  nodes :: "(string \<times> nref) list"
  tasks :: "(string \<times> tref) list"
  heartbeatTimers :: "(string \<times> nat) list"
  intervals :: "(nat \<times> string) list"
  timeouts :: "(string \<times> string) list"
  nextTimer :: nat
  nodeObj :: "nref \<Rightarrow> BotNetNode"
  taskObj :: "tref \<Rightarrow> DistributedTask"
  emitted :: "event list"

definition heartbeatInterval :: int where
  "heartbeatInterval = 30000"

text \<open>The constructor, over the objects that exist in the caller's heap.\<close>

definition new_coordinator :: "(nref \<Rightarrow> BotNetNode) \<Rightarrow> (tref \<Rightarrow> DistributedTask) \<Rightarrow> coordinator" where
  "new_coordinator ns ts =
     \<lparr>nodes = [], tasks = [], heartbeatTimers = [], intervals = [], timeouts = [],
      nextTimer = 0, nodeObj = ns, taskObj = ts, emitted = []\<rparr>"

definition setupHeartbeat :: "coordinator \<Rightarrow> string \<Rightarrow> coordinator" where
  "setupHeartbeat c nid =
     c\<lparr>intervals := intervals c @ [(nextTimer c, nid)],
       heartbeatTimers := AList.update nid (nextTimer c) (heartbeatTimers c),
       nextTimer := nextTimer c + 1\<rparr>"

definition clearHeartbeat :: "coordinator \<Rightarrow> string \<Rightarrow> coordinator" where
  "clearHeartbeat c nid =
     (case map_of (heartbeatTimers c) nid of
        None \<Rightarrow> c
      | Some timer \<Rightarrow>
          c\<lparr>intervals := filter (\<lambda>p. fst p \<noteq> timer) (intervals c),
            heartbeatTimers := AList.delete nid (heartbeatTimers c)\<rparr>)"

definition registerNode :: "coordinator \<Rightarrow> nref \<Rightarrow> coordinator" where
  "registerNode c node =
     setupHeartbeat
       (c\<lparr>nodes := AList.update (nodeId (nodeObj c node)) node (nodes c),
          emitted := emitted c @ [NodeRegistered node]\<rparr>)
       (nodeId (nodeObj c node))"

definition unregisterNode :: "coordinator \<Rightarrow> string \<Rightarrow> coordinator" where
  "unregisterNode c nid =
     (case map_of (nodes c) nid of
        None \<Rightarrow> c
      | Some node \<Rightarrow>
          (let c1 = clearHeartbeat c nid
           in c1\<lparr>nodes := AList.delete nid (nodes c1),
                 emitted := emitted c1 @ [NodeUnregistered node]\<rparr>))"

definition checkHeartbeat :: "coordinator \<Rightarrow> string \<Rightarrow> int \<Rightarrow> coordinator" where
  "checkHeartbeat c nid now =
     (case map_of (nodes c) nid of
        None \<Rightarrow> c
      | Some node \<Rightarrow>
          (let timeSinceLastHeartbeat = now - lastHeartbeat (nodeObj c node)
           in if timeSinceLastHeartbeat > heartbeatInterval * 2
              then c\<lparr>nodeObj := (nodeObj c)(node := (nodeObj c node)\<lparr>nodeStatus := Offline\<rparr>),
                     emitted := emitted c @ [NodeOffline node]\<rparr>
              else c))"

definition heartbeat :: "coordinator \<Rightarrow> string \<Rightarrow> int \<Rightarrow> coordinator" where
  "heartbeat c nid now =
     (case map_of (nodes c) nid of
        None \<Rightarrow> c
      | Some node \<Rightarrow>
          (let c1 = c\<lparr>nodeObj := (nodeObj c)(node := (nodeObj c node)\<lparr>lastHeartbeat := now\<rparr>)\<rparr>
           in if nodeStatus (nodeObj c1 node) = Offline
              then c1\<lparr>nodeObj := (nodeObj c1)(node := (nodeObj c1 node)\<lparr>nodeStatus := Online\<rparr>),
                      emitted := emitted c1 @ [NodeOnline node]\<rparr>
              else c1))"

text \<open>The loop of \<open>findCapableNodes\<close> over \<open>this.nodes.values()\<close>, with its accumulator.\<close>

fun capable_loop :: "coordinator \<Rightarrow> tref \<Rightarrow> nref list \<Rightarrow> nref list \<Rightarrow> nref list" where
  "capable_loop c task [] capable = capable"
| "capable_loop c task (node # rest) capable =
     (if nodeStatus (nodeObj c node) \<noteq> Online then capable_loop c task rest capable
      else
        (let hasCapabilities =
               list_ex (\<lambda>target. str_includes target (nodeId (nodeObj c node))
                                \<or> str_includes target (orgId (nodeObj c node)))
                 (targetNodes (taskObj c task))
         in if hasCapabilities then capable_loop c task rest (capable @ [node])
            else capable_loop c task rest capable))"

definition findCapableNodes :: "coordinator \<Rightarrow> tref \<Rightarrow> nref list" where
  "findCapableNodes c task = capable_loop c task (map snd (nodes c)) []"

text \<open>
  \<open>Array.prototype.sort\<close> with a comparator is a stable sort (ECMAScript 2019): each element
  is placed in front of the first element it compares smaller than.
\<close>

fun insert_sorted :: "('a \<Rightarrow> 'a \<Rightarrow> int) \<Rightarrow> 'a \<Rightarrow> 'a list \<Rightarrow> 'a list" where
  "insert_sorted cmp x [] = [x]"
| "insert_sorted cmp x (y # ys) =
     (if cmp x y < 0 then x # y # ys else y # insert_sorted cmp x ys)"

definition array_sort :: "('a \<Rightarrow> 'a \<Rightarrow> int) \<Rightarrow> 'a list \<Rightarrow> 'a list" where
  "array_sort cmp xs = foldl (\<lambda>acc x. insert_sorted cmp x acc) [] xs"

definition online_first :: "coordinator \<Rightarrow> nref \<Rightarrow> nref \<Rightarrow> int" where
  "online_first c a b =
     (if nodeStatus (nodeObj c a) = Online \<and> nodeStatus (nodeObj c b) \<noteq> Online then -1
      else if nodeStatus (nodeObj c a) \<noteq> Online \<and> nodeStatus (nodeObj c b) = Online then 1
      else 0)"

definition selectNodes :: "coordinator \<Rightarrow> nref list \<Rightarrow> tref \<Rightarrow> nref list" where
  "selectNodes c capableNodes task =
     (let sorted = array_sort (online_first c) capableNodes
      in take (length (targetNodes (taskObj c task))) sorted)"

definition assignTask :: "coordinator \<Rightarrow> tref \<Rightarrow> nref \<Rightarrow> coordinator" where
  "assignTask c task node =
     c\<lparr>nodeObj := (nodeObj c)(node := (nodeObj c node)\<lparr>nodeStatus := Busy\<rparr>),
       emitted := emitted c @ [TaskAssigned task node],
       timeouts := timeouts c @ [(taskId (taskObj c task), nodeId (nodeObj c node))]\<rparr>"

definition createTask :: "coordinator \<Rightarrow> tref \<Rightarrow> coordinator" where
  "createTask c task =
     (let c1 = c\<lparr>tasks := AList.update (taskId (taskObj c task)) task (tasks c),
                 emitted := emitted c @ [TaskCreated task]\<rparr>;
          capableNodes = findCapableNodes c1 task
      in if length capableNodes = 0
         then c1\<lparr>taskObj := (taskObj c1)(task := (taskObj c1 task)\<lparr>taskStatus := Failed\<rparr>),
                 emitted := emitted c1 @ [TaskFailed task ''no_capable_nodes'']\<rparr>
         else
           (let selectedNodes = selectNodes c1 capableNodes task
            in foldl (\<lambda>s node. assignTask s task node) c1 selectedNodes))"

definition completeTask :: "coordinator \<Rightarrow> string \<Rightarrow> string \<Rightarrow> int \<Rightarrow> coordinator" where
  "completeTask c tid nid now =
     (case (map_of (tasks c) tid, map_of (nodes c) nid) of
        (Some task, Some node) \<Rightarrow>
          c\<lparr>taskObj := (taskObj c)(task := (taskObj c task)\<lparr>taskStatus := Completed,
                                                           completedAt := Some now\<rparr>),
            nodeObj := (nodeObj c)(node := (nodeObj c node)\<lparr>nodeStatus := Online\<rparr>),
            emitted := emitted c @ [TaskCompleted task node]\<rparr>
      | _ \<Rightarrow> c)"

text \<open>The timer callbacks: an interval timer checks its node, a timeout completes its task.\<close>

definition fireHeartbeatTimer :: "coordinator \<Rightarrow> nat \<Rightarrow> int \<Rightarrow> coordinator" where
  "fireHeartbeatTimer c timer now =
     (case map_of (intervals c) timer of
        None \<Rightarrow> c
      | Some nid \<Rightarrow> checkHeartbeat c nid now)"

definition fireCompletion :: "coordinator \<Rightarrow> nat \<Rightarrow> int \<Rightarrow> coordinator" where
  "fireCompletion c i now =
     (if i < length (timeouts c)
      then completeTask (c\<lparr>timeouts := take i (timeouts c) @ drop (Suc i) (timeouts c)\<rparr>)
             (fst (timeouts c ! i)) (snd (timeouts c ! i)) now
      else c)"

record stats =
  totalNodes :: nat
  onlineNodes :: nat
  busyNodes :: nat
  offlineNodes :: nat
  totalTasks :: nat
  pendingTasks :: nat
  processingTasks :: nat
  completedTasks :: nat
  failedTasks :: nat

definition getStats :: "coordinator \<Rightarrow> stats" where
  "getStats c =
     (let ns = map (nodeObj c) (map snd (nodes c));
          ts = map (taskObj c) (map snd (tasks c))
      in \<lparr>totalNodes = length ns,
          onlineNodes = length (filter (\<lambda>n. nodeStatus n = Online) ns),
          busyNodes = length (filter (\<lambda>n. nodeStatus n = Busy) ns),
          offlineNodes = length (filter (\<lambda>n. nodeStatus n = Offline) ns),
          totalTasks = length ts,
          pendingTasks = length (filter (\<lambda>t. taskStatus t = Pending) ts),
          processingTasks = length (filter (\<lambda>t. taskStatus t = Processing) ts),
          completedTasks = length (filter (\<lambda>t. taskStatus t = Completed) ts),
          failedTasks = length (filter (\<lambda>t. taskStatus t = Failed) ts)\<rparr>)"

section \<open>Multiplex router (src/asi/multiplex/router.ts)\<close>

text \<open>
  The router creates its channel objects itself and never mutates a task, so channels,
  organizations and tasks are values here. A \<open>throw\<close> inside the \<open>async\<close> function
  \<open>route\<close> is the result \<open>Inl\<close>. \<open>deliveries\<close> are the \<open>setTimeout\<close> deliveries that
  \<open>route\<close> has scheduled: the task and the channel as it stands when \<open>route\<close> picks it (the
  callback, which later emits \<open>task:delivered\<close> with the channel object as it is then, is
  not modelled; neither is \<open>broadcast\<close>).

  \<open>resumeChannel\<close> calls the \<open>async\<close> function \<open>processQueue\<close> and does not wait for it. An
  \<open>async\<close> function runs in one piece up to its next \<open>await\<close> and is resumed later, as a
  microtask. \<open>drains\<close> are the invocations of \<open>processQueue\<close> that are suspended at their
  \<open>await\<close>, oldest first, each with the outcome of the \<open>route\<close> call it waits for (\<open>None\<close>
  when that call returned, the error when it threw). \<open>unhandled\<close> are the errors of
  invocations that ended by a \<open>throw\<close>, which nobody catches.
\<close>

datatype router_event =
    OrgRegistered OrganizationContext
  | ChannelCreated MultiplexChannel
  | ChannelPaused MultiplexChannel
  | ChannelResumed MultiplexChannel
  | TaskQueued DistributedTask
  | TaskRouting DistributedTask MultiplexChannel

datatype error = Error string

record router =
  channels :: "(string \<times> MultiplexChannel) list"
  organizations :: "(string \<times> OrganizationContext) list"
  messageQueue :: "DistributedTask list"
  deliveries :: "(DistributedTask \<times> MultiplexChannel) list"
  drains :: "error option list"
  unhandled :: "error list"
  routerEmitted :: "router_event list"

definition new_router :: router where
  "new_router =
     \<lparr>channels = [], organizations = [], messageQueue = [], deliveries = [],
      drains = [], unhandled = [], routerEmitted = []\<rparr>"

text \<open>A channel type inside a template literal.\<close>

fun channelType_str :: "channel_type \<Rightarrow> string" where
  "channelType_str Agent2agent = ''agent2agent''"
| "channelType_str Org2org = ''org2org''"
| "channelType_str Sensor2agent = ''sensor2agent''"
| "channelType_str Broadcast = ''broadcast''"

definition registerOrganization :: "router \<Rightarrow> OrganizationContext \<Rightarrow> router" where
  "registerOrganization r org =
     r\<lparr>organizations := AList.update (org_orgId org) org (organizations r),
       routerEmitted := routerEmitted r @ [OrgRegistered org]\<rparr>"

definition createChannel ::
  "router \<Rightarrow> string \<Rightarrow> string \<Rightarrow> channel_type \<Rightarrow> string \<times> router" where
  "createChannel r src tgt ty =
     (let channelId = src @ ''->'' @ tgt @ '':'' @ channelType_str ty;
          channel = \<lparr>sourceOrgId = src, targetOrgId = tgt, channelType = ty,
                     channelStatus = Active\<rparr>
      in (channelId,
          r\<lparr>channels := AList.update channelId channel (channels r),
            routerEmitted := routerEmitted r @ [ChannelCreated channel]\<rparr>))"

text \<open>The loop of \<open>findChannels\<close> over the target organization ids, with its accumulator.\<close>

fun channels_loop ::
  "router \<Rightarrow> string \<Rightarrow> string list \<Rightarrow> MultiplexChannel list \<Rightarrow> MultiplexChannel list" where
  "channels_loop r src [] activeChannels = activeChannels"
| "channels_loop r src (tgt # rest) activeChannels =
     (let channelId = src @ ''->'' @ tgt @ '':agent2agent''
      in case map_of (channels r) channelId of
           None \<Rightarrow> channels_loop r src rest activeChannels
         | Some channel \<Rightarrow>
             if channelStatus channel = Active
             then channels_loop r src rest (activeChannels @ [channel])
             else channels_loop r src rest activeChannels)"

definition findChannels :: "router \<Rightarrow> DistributedTask \<Rightarrow> MultiplexChannel list" where
  "findChannels r task =
     (let src = hd (str_split (sourceNode task) CHR '':'');
          targetOrgIds = map (\<lambda>node. hd (str_split node CHR '':'')) (targetNodes task)
      in channels_loop r src targetOrgIds [])"

definition route :: "router \<Rightarrow> DistributedTask \<Rightarrow> error + router" where
  "route r task =
     (case map_of (organizations r) (hd (str_split (sourceNode task) CHR '':'')) of
        None \<Rightarrow> Inl (Error (''Source organization not found: '' @ sourceNode task))
      | Some sourceOrg \<Rightarrow>
          (case findChannels r task of
             [] \<Rightarrow> Inr (r\<lparr>messageQueue := messageQueue r @ [task],
                          routerEmitted := routerEmitted r @ [TaskQueued task]\<rparr>)
           | channel # others \<Rightarrow>
               Inr (r\<lparr>routerEmitted := routerEmitted r @ [TaskRouting task channel],
                      deliveries := deliveries r @ [(task, channel)]\<rparr>)))"

definition pauseChannel :: "router \<Rightarrow> string \<Rightarrow> router" where
  "pauseChannel r channelId =
     (case map_of (channels r) channelId of
        None \<Rightarrow> r
      | Some channel \<Rightarrow>
          r\<lparr>channels := AList.update channelId (channel\<lparr>channelStatus := Paused\<rparr>) (channels r),
            routerEmitted := routerEmitted r @ [ChannelPaused (channel\<lparr>channelStatus := Paused\<rparr>)]\<rparr>)"

text \<open>
  \<open>processQueue\<close> from its loop test to its next \<open>await\<close>: with an empty queue the
  invocation ends; otherwise it shifts the first task, calls \<open>route\<close> on it and suspends,
  waiting for the outcome of that call.
\<close>

definition processQueue :: "router \<Rightarrow> router" where
  "processQueue r =
     (case messageQueue r of
        [] \<Rightarrow> r
      | task # rest \<Rightarrow>
          (case route (r\<lparr>messageQueue := rest\<rparr>) task of
             Inl e \<Rightarrow> r\<lparr>messageQueue := rest, drains := drains r @ [Some e]\<rparr>
           | Inr r' \<Rightarrow> r'\<lparr>drains := drains r' @ [None]\<rparr>))"

text \<open>
  \<open>resumeChannel\<close> returns when \<open>processQueue\<close> reaches its first \<open>await\<close> (or its end).
\<close>

definition resumeChannel :: "router \<Rightarrow> string \<Rightarrow> router" where
  "resumeChannel r channelId =
     (case map_of (channels r) channelId of
        None \<Rightarrow> r
      | Some channel \<Rightarrow>
          processQueue
            (r\<lparr>channels := AList.update channelId (channel\<lparr>channelStatus := Active\<rparr>) (channels r),
               routerEmitted := routerEmitted r @ [ChannelResumed (channel\<lparr>channelStatus := Active\<rparr>)]\<rparr>))"

text \<open>
  One microtask: the oldest suspended invocation of \<open>processQueue\<close> is resumed. When the
  \<open>route\<close> call it waited for threw, the \<open>await\<close> throws and the invocation ends with that
  error; otherwise the loop goes on, to its next \<open>await\<close> or its end.
\<close>

definition resumeProcessQueue :: "router \<Rightarrow> router" where
  "resumeProcessQueue r =
     (case drains r of
        [] \<Rightarrow> r
      | awaited # others \<Rightarrow>
          (case awaited of
             Some e \<Rightarrow> r\<lparr>drains := others, unhandled := unhandled r @ [e]\<rparr>
           | None \<Rightarrow> processQueue (r\<lparr>drains := others\<rparr>)))"

text \<open>
  The event loop runs microtasks until none is left, before it runs any timer or input
  callback. This need not end, so not ending is the value \<open>None\<close>.
\<close>

partial_function (option) runMicrotasks :: "router \<Rightarrow> router option" where
  "runMicrotasks r =
     (if drains r = [] then Some r else runMicrotasks (resumeProcessQueue r))"

declare runMicrotasks.simps [code]

section \<open>Specification vocabulary\<close>

text \<open>
  The words of the specification, written independently of the code: \<open>is_substring s t\<close>
  says that \<open>s\<close> occurs in \<open>t\<close>, and \<open>spec_capable\<close> is membership in the capable set as the
  specification describes it.
\<close>

definition is_substring :: "string \<Rightarrow> string \<Rightarrow> bool" where
  "is_substring s t = (\<exists>pre suf. t = pre @ s @ suf)"

definition spec_capable :: "coordinator \<Rightarrow> tref \<Rightarrow> nref \<Rightarrow> bool" where
  "spec_capable c task r =
     (nodeStatus (nodeObj c r) = Online \<and>
      (\<exists>target \<in> set (targetNodes (taskObj c task)).
         is_substring (nodeId (nodeObj c r)) target \<or> is_substring (orgId (nodeObj c r)) target))"

text \<open>
  \<open>registry_wf\<close> says that every node is registered under its own \<open>nodeId\<close>, once. It
  holds of a new coordinator and every operation maintains it, since no operation writes
  the \<open>nodeId\<close> of a node object.
\<close>

definition registry_wf :: "coordinator \<Rightarrow> bool" where
  "registry_wf c =
     (distinct (map fst (nodes c)) \<and>
      list_all (\<lambda>p. fst p = nodeId (nodeObj c (snd p))) (nodes c))"

text \<open>
  For the router: \<open>org_prefix\<close> is the part of a composite key before the first colon,
  \<open>channel_key\<close> the identifier that belongs to a channel triple, \<open>active_channel\<close> the
  active \<open>agent2agent\<close> channel stored for a pair of organizations, if there is one.
  \<open>source_known\<close> says that the source organization of a task is registered,
  \<open>no_active_channel\<close> that no target organization of the task has an active
  \<open>agent2agent\<close> channel from the source. \<open>channels_wf\<close> says that every channel is stored
  under the identifier of its own triple.
\<close>

definition org_prefix :: "string \<Rightarrow> string" where
  "org_prefix s = takeWhile (\<lambda>c. c \<noteq> CHR '':'') s"

definition channel_key :: "string \<Rightarrow> string \<Rightarrow> channel_type \<Rightarrow> string" where
  "channel_key src tgt ty = src @ ''->'' @ tgt @ '':'' @ channelType_str ty"

definition active_channel :: "router \<Rightarrow> string \<Rightarrow> string \<Rightarrow> MultiplexChannel option" where
  "active_channel r src tgt =
     (case map_of (channels r) (channel_key src tgt Agent2agent) of
        None \<Rightarrow> None
      | Some ch \<Rightarrow> if channelStatus ch = Active then Some ch else None)"

definition source_known :: "router \<Rightarrow> DistributedTask \<Rightarrow> bool" where
  "source_known r task = (map_of (organizations r) (org_prefix (sourceNode task)) \<noteq> None)"

definition no_active_channel :: "router \<Rightarrow> DistributedTask \<Rightarrow> bool" where
  "no_active_channel r task =
     list_all (\<lambda>target. active_channel r (org_prefix (sourceNode task)) (org_prefix target) = None)
       (targetNodes task)"

definition channels_wf :: "router \<Rightarrow> bool" where
  "channels_wf r =
     list_all (\<lambda>p. fst p = channel_key (sourceOrgId (snd p)) (targetOrgId (snd p))
                                      (channelType (snd p)))
       (channels r)"

text \<open>
  The operations of the coordinator that act on an existing state, as one step function:
  the public methods and the two kinds of timer callback.
\<close>

datatype operation =
    RegisterNode nref
  | CreateTask tref
  | Heartbeat string int
  | CompleteTask string string int
  | UnregisterNode string
  | LivenessCheck nat int
  | ScheduledCompletion nat int

fun step :: "coordinator \<Rightarrow> operation \<Rightarrow> coordinator" where
  "step c (RegisterNode node) = registerNode c node"
| "step c (CreateTask task) = createTask c task"
| "step c (Heartbeat nid now) = heartbeat c nid now"
| "step c (CompleteTask tid nid now) = completeTask c tid nid now"
| "step c (UnregisterNode nid) = unregisterNode c nid"
| "step c (LivenessCheck timer now) = fireHeartbeatTimer c timer now"
| "step c (ScheduledCompletion i now) = fireCompletion c i now"

fun completes :: "operation \<Rightarrow> bool" where
  "completes (CompleteTask tid nid now) = True"
| "completes (ScheduledCompletion i now) = True"
| "completes _ = False"

section \<open>Example objects and states\<close>

definition n1 :: BotNetNode where
  "n1 = \<lparr>nodeId = ''n1'', agentId = ''a1'', orgId = ''o1'', capabilities = [],
          nodeStatus = Online, lastHeartbeat = 0\<rparr>"

definition n10 :: BotNetNode where
  "n10 = \<lparr>nodeId = ''n10'', agentId = ''a10'', orgId = ''o2'', capabilities = [],
           nodeStatus = Online, lastHeartbeat = 0\<rparr>"

definition t1 :: DistributedTask where
  "t1 = \<lparr>taskId = ''t1'', taskType = ''process'', priority = 1, sourceNode = ''o1:n1'',
          targetNodes = [''o1:n1''], payload = [], taskStatus = Pending, createdAt = 0,
          completedAt = None\<rparr>"

definition t2 :: DistributedTask where
  "t2 = \<lparr>taskId = ''t2'', taskType = ''process'', priority = 1, sourceNode = ''o1:n1'',
          targetNodes = [''o9:ghost''], payload = [], taskStatus = Pending, createdAt = 0,
          completedAt = None\<rparr>"

definition t10 :: DistributedTask where
  "t10 = \<lparr>taskId = ''t10'', taskType = ''process'', priority = 1, sourceNode = ''o1:n1'',
           targetNodes = [''o2:n10''], payload = [], taskStatus = Pending, createdAt = 0,
           completedAt = None\<rparr>"

text \<open>One registered node and the task \<open>t1\<close> that names it; then the task created.\<close>

definition c_reg1 :: coordinator where
  "c_reg1 = registerNode (new_coordinator (\<lambda>_. n1) (\<lambda>_. t1)) 0"

definition c_busy :: coordinator where
  "c_busy = createTask c_reg1 0"

text \<open>One registered node and the task \<open>t2\<close> that no node matches; then the task created.\<close>

definition c_reg2 :: coordinator where
  "c_reg2 = registerNode (new_coordinator (\<lambda>_. n1) (\<lambda>_. t2)) 0"

definition c_failed :: coordinator where
  "c_failed = createTask c_reg2 0"

text \<open>The failed task \<open>t2\<close> completed by a later \<open>completeTask\<close> on the node \<open>n1\<close>.\<close>

definition c_completed :: coordinator where
  "c_completed = completeTask c_failed ''t2'' ''n1'' 100"

text \<open>
  Two registered nodes, \<open>n1\<close> and \<open>n10\<close>, and the task \<open>t10\<close> whose single target
  \<open>o2:n10\<close> contains the identifiers of both.
\<close>

definition c_two :: coordinator where
  "c_two = registerNode (registerNode (new_coordinator ((\<lambda>_. n1)(1 := n10)) (\<lambda>_. t10)) 0) 1"

text \<open>
  A router with the organization \<open>o1\<close>. Routing \<open>t10\<close> (from \<open>o1\<close> to \<open>o2\<close>) finds no
  channel and queues the task (\<open>r_queued\<close>); then a channel from \<open>o1\<close> to \<open>o3\<close> is created
  (\<open>r_stuck\<close>). In \<open>r_a2a\<close> the channel from \<open>o1\<close> to \<open>o2\<close> exists instead; in \<open>r_two\<close>
  that channel has been paused and the tasks \<open>t10\<close> and \<open>t11\<close>, both for \<open>o2\<close>, have been
  routed and queued.
\<close>

definition org1 :: OrganizationContext where
  "org1 = \<lparr>org_orgId = ''o1'', name = ''Org One'', tenantId = ''tenant-1'', metadata = []\<rparr>"

definition t11 :: DistributedTask where
  "t11 = \<lparr>taskId = ''t11'', taskType = ''process'', priority = 1, sourceNode = ''o1:n1'',
           targetNodes = [''o2:n10''], payload = [], taskStatus = Pending, createdAt = 1,
           completedAt = None\<rparr>"

definition r_org :: router where
  "r_org = registerOrganization new_router org1"

definition r_queued :: router where
  "r_queued = projr (route r_org t10)"

definition r_stuck :: router where
  "r_stuck = snd (createChannel r_queued ''o1'' ''o3'' Agent2agent)"

definition r_a2a :: router where
  "r_a2a = snd (createChannel r_org ''o1'' ''o2'' Agent2agent)"

definition r_two :: router where
  "r_two = projr (route (projr (route (pauseChannel r_a2a ''o1->o2:agent2agent'') t10)) t11)"

section \<open>Facts about the string primitives\<close>

lemma starts_with_iff: "starts_with t s \<longleftrightarrow> (\<exists>suf. t = s @ suf)"
  by (induction t s rule: starts_with.induct) auto

lemma str_includes_iff: "str_includes t s \<longleftrightarrow> is_substring s t"
proof (induction t)
  case Nil
  then show ?case by (simp add: is_substring_def)
next
  case (Cons d t)
  show ?case
  proof
    assume "str_includes (d # t) s"
    then consider "starts_with (d # t) s" | "str_includes t s" by auto
    then show "is_substring s (d # t)"
    proof cases
      case 1
      then obtain suf where "d # t = s @ suf" by (auto simp: starts_with_iff)
      then have "d # t = [] @ s @ suf" by simp
      then show ?thesis unfolding is_substring_def by blast
    next
      case 2
      with Cons.IH obtain pre suf where "t = pre @ s @ suf"
        unfolding is_substring_def by blast
      then have "d # t = (d # pre) @ s @ suf" by simp
      then show ?thesis unfolding is_substring_def by blast
    qed
  next
    assume "is_substring s (d # t)"
    then obtain pre suf where eq: "d # t = pre @ s @ suf"
      unfolding is_substring_def by blast
    show "str_includes (d # t) s"
    proof (cases pre)
      case Nil
      with eq have "starts_with (d # t) s" by (auto simp: starts_with_iff)
      then show ?thesis by simp
    next
      case (Cons e pre')
      with eq have "t = pre' @ s @ suf" by simp
      then have "is_substring s t" unfolding is_substring_def by blast
      with Cons.IH have "str_includes t s" by blast
      then show ?thesis by simp
    qed
  qed
qed

lemma str_split_nonempty: "str_split s sep \<noteq> []"
  by (induction s) (auto split: list.splits)

lemma hd_str_split: "hd (str_split s sep) = takeWhile (\<lambda>c. c \<noteq> sep) s"
  by (induction s) (auto split: list.splits simp: str_split_nonempty)

section \<open>Facts about the coordinator\<close>

lemma set_update_subset: "set (AList.update k v al) \<subseteq> insert (k, v) (set al)"
  by (induction al) auto

lemma update_fresh: "map_of al k = None \<Longrightarrow> AList.update k v al = al @ [(k, v)]"
  by (induction al) (auto split: if_splits)

lemma capable_loop_filter:
  "capable_loop c task xs acc =
     acc @ filter (\<lambda>r. nodeStatus (nodeObj c r) = Online \<and>
                       (\<exists>target \<in> set (targetNodes (taskObj c task)).
                          str_includes target (nodeId (nodeObj c r)) \<or>
                          str_includes target (orgId (nodeObj c r)))) xs"
  by (induction xs arbitrary: acc) (auto simp: list_ex_iff Let_def)

lemma findCapableNodes_filter:
  "findCapableNodes c task = filter (spec_capable c task) (map snd (nodes c))"
proof -
  have "(\<lambda>r. nodeStatus (nodeObj c r) = Online \<and>
              (\<exists>target \<in> set (targetNodes (taskObj c task)).
                 str_includes target (nodeId (nodeObj c r)) \<or>
                 str_includes target (orgId (nodeObj c r)))) = spec_capable c task"
    by (simp add: fun_eq_iff spec_capable_def str_includes_iff)
  then show ?thesis by (simp add: findCapableNodes_def capable_loop_filter)
qed

lemma findCapableNodes_cong:
  "nodes c' = nodes c \<Longrightarrow> nodeObj c' = nodeObj c \<Longrightarrow> taskObj c' = taskObj c \<Longrightarrow>
   findCapableNodes c' task = findCapableNodes c task"
  by (simp add: findCapableNodes_def capable_loop_filter)

lemma findCapableNodes_online:
  "r \<in> set (findCapableNodes c task) \<Longrightarrow> nodeStatus (nodeObj c r) = Online"
  by (simp add: findCapableNodes_def capable_loop_filter)

lemma insert_sorted_last:
  "\<forall>y \<in> set ys. \<not> cmp x y < 0 \<Longrightarrow> insert_sorted cmp x ys = ys @ [x]"
  by (induction ys) auto

lemma foldl_insert_sorted:
  "\<forall>x \<in> set xs. \<forall>y \<in> set acc \<union> set xs. \<not> cmp x y < 0 \<Longrightarrow>
   foldl (\<lambda>acc x. insert_sorted cmp x acc) acc xs = acc @ xs"
proof (induction xs arbitrary: acc)
  case Nil
  then show ?case by simp
next
  case (Cons x xs)
  have "insert_sorted cmp x acc = acc @ [x]"
    using Cons.prems by (intro insert_sorted_last) auto
  moreover have "foldl (\<lambda>acc x. insert_sorted cmp x acc) (acc @ [x]) xs = (acc @ [x]) @ xs"
    using Cons.prems by (intro Cons.IH) auto
  ultimately show ?case by simp
qed

lemma array_sort_id:
  "\<forall>x \<in> set xs. \<forall>y \<in> set xs. \<not> cmp x y < 0 \<Longrightarrow> array_sort cmp xs = xs"
  unfolding array_sort_def using foldl_insert_sorted [of xs "[]" cmp] by simp

lemma selectNodes_take:
  assumes "\<forall>r \<in> set capable. nodeStatus (nodeObj c r) = Online"
  shows "selectNodes c capable task = take (length (targetNodes (taskObj c task))) capable"
proof -
  have "\<forall>x \<in> set capable. \<forall>y \<in> set capable. \<not> online_first c x y < 0"
    using assms by (simp add: online_first_def)
  then have "array_sort (online_first c) capable = capable" by (rule array_sort_id)
  then show ?thesis by (simp add: selectNodes_def)
qed

lemma selectNodes_cong:
  assumes "nodeObj c' = nodeObj c" and "taskObj c' = taskObj c"
  shows "selectNodes c' capable task = selectNodes c capable task"
proof -
  from assms have "online_first c' = online_first c"
    by (simp add: fun_eq_iff online_first_def)
  with assms show ?thesis by (simp add: selectNodes_def)
qed

lemma foldl_assignTask_fields:
  "nodes (foldl (\<lambda>s node. assignTask s task node) c sel) = nodes c"
  "tasks (foldl (\<lambda>s node. assignTask s task node) c sel) = tasks c"
  "taskObj (foldl (\<lambda>s node. assignTask s task node) c sel) = taskObj c"
  by (induction sel arbitrary: c) (simp_all add: assignTask_def)

lemma foldl_assignTask_emitted:
  "emitted (foldl (\<lambda>s node. assignTask s task node) c sel) =
     emitted c @ map (TaskAssigned task) sel"
  by (induction sel arbitrary: c) (simp_all add: assignTask_def)

lemma foldl_assignTask_nodeObj:
  "nodeObj (foldl (\<lambda>s node. assignTask s task node) c sel) r =
     (if r \<in> set sel then (nodeObj c r)\<lparr>nodeStatus := Busy\<rparr> else nodeObj c r)"
  by (induction sel arbitrary: c) (auto simp: assignTask_def)

lemma failed_count_append:
  assumes "r \<notin> set rs"
  shows "length (filter (\<lambda>t. taskStatus t = Failed) (map (h(r := x)) (rs @ [r]))) =
         length (filter (\<lambda>t. taskStatus t = Failed) (map h rs)) +
           (if taskStatus x = Failed then 1 else 0)"
proof -
  have eq: "map (h(r := x)) rs = map h rs"
    by (rule map_ext) (use assms in auto)
  have "map (h(r := x)) (rs @ [r]) = map h rs @ [x]"
    unfolding map_append eq by simp
  then show ?thesis by (simp del: map_append map_map)
qed

lemma taskObj_unregisterNode: "taskObj (unregisterNode c nid) = taskObj c"
  by (simp add: unregisterNode_def clearHeartbeat_def Let_def split: option.splits)

lemma taskObj_heartbeat: "taskObj (heartbeat c nid now) = taskObj c"
  by (simp add: heartbeat_def Let_def split: option.splits)

lemma taskObj_checkHeartbeat: "taskObj (checkHeartbeat c nid now) = taskObj c"
  by (simp add: checkHeartbeat_def Let_def split: option.splits)

lemma taskObj_fireHeartbeatTimer: "taskObj (fireHeartbeatTimer c timer now) = taskObj c"
  by (simp add: fireHeartbeatTimer_def taskObj_checkHeartbeat split: option.splits)

lemma taskObj_completeTask:
  "taskObj (completeTask c tid nid now) t = taskObj c t \<or>
   taskObj (completeTask c tid nid now) t =
     (taskObj c t)\<lparr>taskStatus := Completed, completedAt := Some now\<rparr>"
  by (simp add: completeTask_def split: option.splits)

lemma taskObj_fireCompletion:
  "taskObj (fireCompletion c i now) t = taskObj c t \<or>
   taskObj (fireCompletion c i now) t =
     (taskObj c t)\<lparr>taskStatus := Completed, completedAt := Some now\<rparr>"
proof (cases "i < length (timeouts c)")
  case True
  let ?c' = "c\<lparr>timeouts := take i (timeouts c) @ drop (Suc i) (timeouts c)\<rparr>"
  from taskObj_completeTask [of ?c' "fst (timeouts c ! i)" "snd (timeouts c ! i)" now t] True
  show ?thesis by (simp add: fireCompletion_def)
next
  case False
  then show ?thesis by (simp add: fireCompletion_def)
qed

lemma taskObj_createTask_other:
  "t \<noteq> task \<Longrightarrow> taskObj (createTask c task) t = taskObj c t"
  by (simp add: createTask_def Let_def foldl_assignTask_fields)

lemma taskObj_createTask_same:
  "taskObj (createTask c t) t =
     (if findCapableNodes c t = [] then (taskObj c t)\<lparr>taskStatus := Failed\<rparr> else taskObj c t)"
proof -
  let ?c1 = "c\<lparr>tasks := AList.update (taskId (taskObj c t)) t (tasks c),
                emitted := emitted c @ [TaskCreated t]\<rparr>"
  have "findCapableNodes ?c1 t = findCapableNodes c t"
    by (rule findCapableNodes_cong) simp_all
  then show ?thesis by (simp add: createTask_def Let_def foldl_assignTask_fields)
qed

lemma registry_wf_cong:
  assumes "nodes c' = nodes c" and "\<And>r. nodeId (nodeObj c' r) = nodeId (nodeObj c r)"
  shows "registry_wf c' = registry_wf c"
  using assms by (simp add: registry_wf_def)

lemma registry_wf_new: "registry_wf (new_coordinator ns ts)"
  by (simp add: registry_wf_def new_coordinator_def)

lemma registry_wf_registerNode:
  assumes "registry_wf c"
  shows "registry_wf (registerNode c node)"
proof -
  have "set (AList.update (nodeId (nodeObj c node)) node (nodes c)) \<subseteq>
      insert (nodeId (nodeObj c node), node) (set (nodes c))"
    by (rule set_update_subset)
  with assms show ?thesis
    by (auto simp: registry_wf_def registerNode_def setupHeartbeat_def list_all_iff
          distinct_update)
qed

lemma registry_wf_unregisterNode:
  assumes "registry_wf c"
  shows "registry_wf (unregisterNode c nid)"
proof -
  have "set (AList.delete nid (nodes c)) \<subseteq> set (nodes c)"
    by (auto simp: AList.delete_eq)
  with assms show ?thesis
    by (auto simp: registry_wf_def unregisterNode_def clearHeartbeat_def Let_def list_all_iff
          distinct_delete split: option.splits)
qed

lemma registry_wf_heartbeat: "registry_wf (heartbeat c nid now) = registry_wf c"
  by (rule registry_wf_cong) (simp_all add: heartbeat_def Let_def split: option.splits)

lemma registry_wf_checkHeartbeat: "registry_wf (checkHeartbeat c nid now) = registry_wf c"
  by (rule registry_wf_cong) (simp_all add: checkHeartbeat_def Let_def split: option.splits)

lemma registry_wf_completeTask: "registry_wf (completeTask c tid nid now) = registry_wf c"
  by (rule registry_wf_cong) (simp_all add: completeTask_def split: option.splits)

lemma registry_wf_createTask: "registry_wf (createTask c task) = registry_wf c"
  by (rule registry_wf_cong)
     (simp_all add: createTask_def Let_def foldl_assignTask_fields foldl_assignTask_nodeObj)

lemma registry_wf_fireHeartbeatTimer:
  "registry_wf (fireHeartbeatTimer c timer now) = registry_wf c"
  by (simp add: fireHeartbeatTimer_def registry_wf_checkHeartbeat split: option.splits)

lemma registry_wf_fireCompletion: "registry_wf (fireCompletion c i now) = registry_wf c"
  by (simp add: fireCompletion_def registry_wf_completeTask) (simp add: registry_wf_def)

lemma registry_wf_distinct:
  assumes "registry_wf c"
  shows "distinct (map snd (nodes c))"
proof -
  have "inj_on snd (set (nodes c))"
  proof (rule inj_onI)
    fix p q assume p: "p \<in> set (nodes c)" and q: "q \<in> set (nodes c)" and eq: "snd p = snd q"
    from assms p q have "fst p = nodeId (nodeObj c (snd p))" "fst q = nodeId (nodeObj c (snd q))"
      by (auto simp: registry_wf_def list_all_iff)
    with eq show "p = q" by (simp add: prod_eq_iff)
  qed
  moreover from assms have "distinct (nodes c)"
    by (auto simp: registry_wf_def distinct_map)
  ultimately show ?thesis by (simp add: distinct_map)
qed

lemma registry_wf_step: "registry_wf c \<Longrightarrow> registry_wf (step c op)"
  by (cases op)
     (simp_all add: registry_wf_registerNode registry_wf_createTask registry_wf_heartbeat
        registry_wf_completeTask registry_wf_unregisterNode registry_wf_fireHeartbeatTimer
        registry_wf_fireCompletion)

lemma taskObj_registerNode: "taskObj (registerNode c node) = taskObj c"
  by (simp add: registerNode_def setupHeartbeat_def)

section \<open>Liveness check\<close>

text \<open>
  C1 (as stated, refuted). The claim says that a liveness check never takes a busy node
  offline. In the state \<open>c_busy\<close> the node \<open>n1\<close> is busy with the task \<open>t1\<close> and last
  heartbeat at time 0; the check that fires at time 90000 sets it to offline and emits
  \<open>node:offline\<close>.
\<close>

theorem checkHeartbeat_busy_counterexample:
  "nodeStatus (nodeObj c_busy 0) = Busy \<and>
   nodeStatus (nodeObj (checkHeartbeat c_busy ''n1'' 90000) 0) = Offline \<and>
   emitted (checkHeartbeat c_busy ''n1'' 90000) = emitted c_busy @ [NodeOffline 0]"
  by code_simp

text \<open>
  C1 (amended). The liveness check does not look at the status of the node. For a registered
  node, whatever its status (busy included): if more than twice the heartbeat interval has
  passed since its last heartbeat, the check sets the status to offline and emits
  \<open>node:offline\<close>; otherwise the check changes nothing and emits nothing. No other node
  object is touched, so only nodes silent for more than twice the interval are set offline.
\<close>

theorem checkHeartbeat_ignores_status:
  assumes "map_of (nodes c) nid = Some node"
  shows "(now - lastHeartbeat (nodeObj c node) > 2 * heartbeatInterval \<longrightarrow>
            nodeStatus (nodeObj (checkHeartbeat c nid now) node) = Offline \<and>
            emitted (checkHeartbeat c nid now) = emitted c @ [NodeOffline node]) \<and>
         (now - lastHeartbeat (nodeObj c node) \<le> 2 * heartbeatInterval \<longrightarrow>
            checkHeartbeat c nid now = c) \<and>
         (\<forall>r. r \<noteq> node \<longrightarrow> nodeObj (checkHeartbeat c nid now) r = nodeObj c r)"
proof (cases "now - lastHeartbeat (nodeObj c node) > heartbeatInterval * 2")
  case True
  with assms have "checkHeartbeat c nid now =
      c\<lparr>nodeObj := (nodeObj c)(node := (nodeObj c node)\<lparr>nodeStatus := Offline\<rparr>),
        emitted := emitted c @ [NodeOffline node]\<rparr>"
    by (simp add: checkHeartbeat_def Let_def)
  with True show ?thesis by (simp add: mult.commute)
next
  case False
  with assms have "checkHeartbeat c nid now = c"
    by (simp add: checkHeartbeat_def Let_def)
  with False show ?thesis by (simp add: mult.commute)
qed

theorem checkHeartbeat_ignores_status_witness:
  "map_of (nodes c_busy) ''n1'' = Some 0 \<and> nodeStatus (nodeObj c_busy 0) = Busy \<and>
   90000 - lastHeartbeat (nodeObj c_busy 0) > 2 * heartbeatInterval \<and>
   nodeStatus (nodeObj (checkHeartbeat c_busy ''n1'' 90000) 0) = Offline \<and>
   60000 - lastHeartbeat (nodeObj c_busy 0) \<le> 2 * heartbeatInterval \<and>
   checkHeartbeat c_busy ''n1'' 60000 = c_busy \<and>
   (1::nat) \<noteq> 0 \<and> nodeObj (checkHeartbeat c_busy ''n1'' 90000) 1 = nodeObj c_busy 1"
proof -
  have reg: "map_of (nodes c_busy) ''n1'' = Some 0" by code_simp
  have busy: "nodeStatus (nodeObj c_busy 0) = Busy" by code_simp
  have late: "90000 - lastHeartbeat (nodeObj c_busy 0) > 2 * heartbeatInterval" by code_simp
  have early: "60000 - lastHeartbeat (nodeObj c_busy 0) \<le> 2 * heartbeatInterval" by code_simp
  from checkHeartbeat_ignores_status [OF reg, of 90000] late
  have "nodeStatus (nodeObj (checkHeartbeat c_busy ''n1'' 90000) 0) = Offline"
    and "nodeObj (checkHeartbeat c_busy ''n1'' 90000) 1 = nodeObj c_busy 1" by simp_all
  moreover from checkHeartbeat_ignores_status [OF reg, of 60000] early
  have "checkHeartbeat c_busy ''n1'' 60000 = c_busy" by blast
  ultimately show ?thesis using reg busy late early by simp
qed

section \<open>Capable set\<close>

text \<open>
  C4. The capable set that \<open>createTask\<close> computes is exactly the set of registered nodes
  that are online and for which some entry of \<open>task.targetNodes\<close> contains the node's
  \<open>nodeId\<close> or its \<open>orgId\<close> as a substring; the nodes come in registry order, and none of
  them is busy or offline.
\<close>

theorem findCapableNodes_exact:
  "findCapableNodes c task = filter (spec_capable c task) (map snd (nodes c)) \<and>
   set (findCapableNodes c task) = {r \<in> snd ` set (nodes c). spec_capable c task r} \<and>
   (\<forall>r \<in> set (findCapableNodes c task).
      nodeStatus (nodeObj c r) \<noteq> Busy \<and> nodeStatus (nodeObj c r) \<noteq> Offline)"
proof -
  have list: "findCapableNodes c task = filter (spec_capable c task) (map snd (nodes c))"
    by (rule findCapableNodes_filter)
  then have members: "set (findCapableNodes c task) =
      {r \<in> snd ` set (nodes c). spec_capable c task r}"
    by auto
  have "nodeStatus (nodeObj c r) \<noteq> Busy \<and> nodeStatus (nodeObj c r) \<noteq> Offline"
    if "r \<in> set (findCapableNodes c task)" for r
  proof -
    from that have "nodeStatus (nodeObj c r) = Online" by (rule findCapableNodes_online)
    then show ?thesis by simp
  qed
  with list members show ?thesis by blast
qed

theorem findCapableNodes_exact_witness:
  "findCapableNodes c_two 0 = [0, 1] \<and> spec_capable c_two 0 0 \<and>
   nodeStatus (nodeObj c_two 0) \<noteq> Busy \<and> nodeStatus (nodeObj c_two 0) \<noteq> Offline"
proof -
  have cap: "findCapableNodes c_two 0 = [0, 1]" by code_simp
  then have mem: "0 \<in> set (findCapableNodes c_two 0)" by simp
  from findCapableNodes_exact [of c_two 0] mem
  have "spec_capable c_two 0 0"
    and "nodeStatus (nodeObj c_two 0) \<noteq> Busy \<and> nodeStatus (nodeObj c_two 0) \<noteq> Offline"
    by blast+
  with cap show ?thesis by simp
qed

section \<open>Task creation\<close>

text \<open>
  C5 (as stated, refuted). The claim says that the failed-task count is one higher after
  every \<open>createTask\<close> with an empty capable set. In the state \<open>c_failed\<close> the task \<open>t2\<close> has
  been created once and has failed; creating the same task again finds no capable node
  again, and the failed-task count stays 1.
\<close>

theorem createTask_failed_count_counterexample:
  "findCapableNodes c_failed 0 = [] \<and>
   failedTasks (getStats c_failed) = 1 \<and>
   failedTasks (getStats (createTask c_failed 0)) = 1"
  by code_simp

text \<open>
  C5 (amended). For every task whose capable set is empty, \<open>createTask\<close> sets the task's
  status to failed, emits \<open>task:created\<close> and then \<open>task:failed\<close> with the reason
  \<open>no_capable_nodes\<close>, returns a state (there is no error result), and changes no node.
  The failed-task count of \<open>getStats\<close> is one higher afterwards when the task is new to the
  coordinator: no task is stored under its \<open>taskId\<close> and the task object is not stored yet.
\<close>

theorem createTask_no_capable_nodes:
  assumes "findCapableNodes c task = []"
  shows "taskStatus (taskObj (createTask c task) task) = Failed \<and>
         emitted (createTask c task) =
           emitted c @ [TaskCreated task, TaskFailed task ''no_capable_nodes''] \<and>
         nodes (createTask c task) = nodes c \<and>
         nodeObj (createTask c task) = nodeObj c \<and>
         (map_of (tasks c) (taskId (taskObj c task)) = None \<and> task \<notin> snd ` set (tasks c) \<longrightarrow>
            failedTasks (getStats (createTask c task)) = failedTasks (getStats c) + 1)"
proof -
  let ?c1 = "c\<lparr>tasks := AList.update (taskId (taskObj c task)) task (tasks c),
                emitted := emitted c @ [TaskCreated task]\<rparr>"
  let ?c2 = "?c1\<lparr>taskObj := (taskObj ?c1)(task := (taskObj ?c1 task)\<lparr>taskStatus := Failed\<rparr>),
                  emitted := emitted ?c1 @ [TaskFailed task ''no_capable_nodes'']\<rparr>"
  have "findCapableNodes ?c1 task = findCapableNodes c task"
    by (rule findCapableNodes_cong) simp_all
  with assms have res: "createTask c task = ?c2"
    by (simp add: createTask_def Let_def)
  have count: "failedTasks (getStats ?c2) = failedTasks (getStats c) + 1"
    if fresh: "map_of (tasks c) (taskId (taskObj c task)) = None" "task \<notin> snd ` set (tasks c)"
  proof -
    have "tasks ?c2 = tasks c @ [(taskId (taskObj c task), task)]"
      using fresh(1) by (simp add: update_fresh)
    then have ts: "map snd (tasks ?c2) = map snd (tasks c) @ [task]" by simp
    have nin: "task \<notin> set (map snd (tasks c))" using fresh(2) by simp
    have obj: "taskObj ?c2 = (taskObj c)(task := (taskObj c task)\<lparr>taskStatus := Failed\<rparr>)"
      by simp
    have "length (filter (\<lambda>t. taskStatus t = Failed) (map (taskObj ?c2) (map snd (tasks ?c2)))) =
        length (filter (\<lambda>t. taskStatus t = Failed) (map (taskObj c) (map snd (tasks c)))) + 1"
      unfolding ts obj failed_count_append [OF nin] by simp
    then show ?thesis by (simp add: getStats_def Let_def)
  qed
  show ?thesis unfolding res using count by simp
qed

theorem createTask_no_capable_nodes_witness:
  "findCapableNodes c_reg2 0 = [] \<and>
   map_of (tasks c_reg2) (taskId (taskObj c_reg2 0)) = None \<and> 0 \<notin> snd ` set (tasks c_reg2) \<and>
   taskStatus (taskObj (createTask c_reg2 0) 0) = Failed \<and>
   failedTasks (getStats c_reg2) = 0 \<and>
   failedTasks (getStats (createTask c_reg2 0)) = 1"
proof -
  have none: "findCapableNodes c_reg2 0 = []" by code_simp
  have fresh: "map_of (tasks c_reg2) (taskId (taskObj c_reg2 0)) = None"
    "0 \<notin> snd ` set (tasks c_reg2)" by code_simp+
  have zero: "failedTasks (getStats c_reg2) = 0" by code_simp
  from createTask_no_capable_nodes [OF none] fresh zero
  have "taskStatus (taskObj (createTask c_reg2 0) 0) = Failed"
    and "failedTasks (getStats (createTask c_reg2 0)) = 1" by simp_all
  with none fresh zero show ?thesis by simp
qed

text \<open>
  C6. For every task with a non-empty capable set, \<open>createTask\<close> selects the first
  \<open>min(|capable set|, |task.targetNodes|)\<close> capable nodes in registry order (all capable
  nodes are online, so the preference for online nodes never reorders them), sets exactly
  the selected nodes to busy, and emits \<open>task:assigned\<close> for the selected nodes, one event
  each, in order. In a registry that holds every node once, no node is selected twice.
\<close>

theorem createTask_selects_and_assigns:
  assumes "findCapableNodes c task \<noteq> []"
  shows "selectNodes c (findCapableNodes c task) task =
           take (length (targetNodes (taskObj c task))) (findCapableNodes c task) \<and>
         length (selectNodes c (findCapableNodes c task) task) =
           min (length (findCapableNodes c task)) (length (targetNodes (taskObj c task))) \<and>
         (\<forall>r. nodeObj (createTask c task) r =
                (if r \<in> set (selectNodes c (findCapableNodes c task) task)
                 then (nodeObj c r)\<lparr>nodeStatus := Busy\<rparr> else nodeObj c r)) \<and>
         emitted (createTask c task) =
           emitted c @ TaskCreated task #
             map (TaskAssigned task) (selectNodes c (findCapableNodes c task) task) \<and>
         (registry_wf c \<longrightarrow>
            distinct (selectNodes c (findCapableNodes c task) task) \<and>
            card (set (selectNodes c (findCapableNodes c task) task)) =
              min (card (set (findCapableNodes c task))) (length (targetNodes (taskObj c task))))"
proof -
  let ?c1 = "c\<lparr>tasks := AList.update (taskId (taskObj c task)) task (tasks c),
                emitted := emitted c @ [TaskCreated task]\<rparr>"
  let ?sel = "selectNodes c (findCapableNodes c task) task"
  have cap: "findCapableNodes ?c1 task = findCapableNodes c task"
    by (rule findCapableNodes_cong) simp_all
  have sel: "selectNodes ?c1 (findCapableNodes c task) task = ?sel"
    by (rule selectNodes_cong) simp_all
  have res: "createTask c task = foldl (\<lambda>s node. assignTask s task node) ?c1 ?sel"
    using assms by (simp add: createTask_def Let_def cap sel)
  have tk: "?sel = take (length (targetNodes (taskObj c task))) (findCapableNodes c task)"
    by (rule selectNodes_take) (simp add: findCapableNodes_online)
  have len: "length ?sel =
      min (length (findCapableNodes c task)) (length (targetNodes (taskObj c task)))"
    by (simp add: tk min.commute)
  have objs: "\<forall>r. nodeObj (createTask c task) r =
                (if r \<in> set ?sel then (nodeObj c r)\<lparr>nodeStatus := Busy\<rparr> else nodeObj c r)"
    by (simp add: res foldl_assignTask_nodeObj)
  have ev: "emitted (createTask c task) =
      emitted c @ TaskCreated task # map (TaskAssigned task) ?sel"
    by (simp add: res foldl_assignTask_emitted)
  have once: "distinct ?sel \<and>
      card (set ?sel) =
        min (card (set (findCapableNodes c task))) (length (targetNodes (taskObj c task)))"
    if "registry_wf c"
  proof -
    from that have "distinct (findCapableNodes c task)"
      by (simp add: findCapableNodes_filter registry_wf_distinct)
    then have "distinct ?sel" and "card (set (findCapableNodes c task)) = length (findCapableNodes c task)"
      by (simp_all add: tk distinct_card)
    with len show ?thesis by (simp add: distinct_card)
  qed
  from tk len objs ev once show ?thesis by blast
qed

theorem createTask_selects_and_assigns_witness:
  "findCapableNodes c_two 0 = [0, 1] \<and>
   selectNodes c_two (findCapableNodes c_two 0) 0 = [0] \<and>
   nodeStatus (nodeObj (createTask c_two 0) 0) = Busy \<and>
   nodeStatus (nodeObj (createTask c_two 0) 1) = Online \<and>
   emitted (createTask c_two 0) = emitted c_two @ [TaskCreated 0, TaskAssigned 0 0] \<and>
   registry_wf c_two \<and> card (set (selectNodes c_two (findCapableNodes c_two 0) 0)) = 1"
proof -
  have wf: "registry_wf c_two" by code_simp
  have cap: "findCapableNodes c_two 0 = [0, 1]" by code_simp
  then have ne: "findCapableNodes c_two 0 \<noteq> []" by simp
  have len: "length (targetNodes (taskObj c_two 0)) = 1" by code_simp
  have st: "nodeStatus (nodeObj c_two 1) = Online" by code_simp
  note inst = createTask_selects_and_assigns [OF ne]
  from inst cap len have sel: "selectNodes c_two (findCapableNodes c_two 0) 0 = [0]" by simp
  from inst sel have "nodeObj (createTask c_two 0) 0 = (nodeObj c_two 0)\<lparr>nodeStatus := Busy\<rparr>"
    and "nodeObj (createTask c_two 0) 1 = nodeObj c_two 1"
    and "emitted (createTask c_two 0) = emitted c_two @ [TaskCreated 0, TaskAssigned 0 0]"
    by simp_all
  moreover from inst wf cap len
  have "card (set (selectNodes c_two (findCapableNodes c_two 0) 0)) = 1" by simp
  ultimately show ?thesis using cap sel st wf by simp
qed

section \<open>Task status under later operations\<close>

text \<open>
  C3 (as stated, refuted). The claim says that no later operation changes the status of a
  failed or completed task. In the state \<open>c_failed\<close> the task \<open>t2\<close> has failed for want of a
  capable node, and the node \<open>n1\<close> is registered; \<open>completeTask\<close> on that task and node sets
  the status to completed. In the resulting state \<open>c_completed\<close>, \<open>createTask\<close> on the same
  task finds no capable node again and sets the status back to failed.
\<close>

theorem task_status_not_terminal_counterexample:
  "taskStatus (taskObj c_failed 0) = Failed \<and>
   taskStatus (taskObj (step c_failed (CompleteTask ''t2'' ''n1'' 100)) 0) = Completed \<and>
   taskStatus (taskObj c_completed 0) = Completed \<and>
   taskStatus (taskObj (step c_completed (CreateTask 0)) 0) = Failed"
  by code_simp

text \<open>
  C3 (amended). For every task object and every operation (\<open>registerNode\<close>, \<open>createTask\<close>,
  \<open>heartbeat\<close>, \<open>completeTask\<close>, \<open>unregisterNode\<close>, a liveness check firing, a scheduled
  completion firing): a completed task stays completed, except that \<open>createTask\<close> called
  again on that same task object sets it to failed when it finds no capable node; a failed
  task stays failed, except that \<open>completeTask\<close> or a scheduled completion firing may set it
  to completed. No operation takes a completed or failed task to pending or processing.
\<close>

theorem task_status_after_step:
  "(taskStatus (taskObj c t) = Completed \<longrightarrow>
      taskStatus (taskObj (step c op) t) =
        (if op = CreateTask t \<and> findCapableNodes c t = [] then Failed else Completed)) \<and>
   (taskStatus (taskObj c t) = Failed \<longrightarrow>
      taskStatus (taskObj (step c op) t) = Failed \<or>
      completes op \<and> taskStatus (taskObj (step c op) t) = Completed)"
proof (cases op)
  case (RegisterNode node)
  then show ?thesis by (simp add: taskObj_registerNode)
next
  case (CreateTask task)
  show ?thesis
  proof (cases "task = t")
    case True
    with CreateTask show ?thesis by (simp add: taskObj_createTask_same)
  next
    case False
    then have "taskObj (createTask c task) t = taskObj c t"
      by (simp add: taskObj_createTask_other)
    with CreateTask False show ?thesis by simp
  qed
next
  case (Heartbeat nid now)
  then show ?thesis by (simp add: taskObj_heartbeat)
next
  case (CompleteTask tid nid now)
  from taskObj_completeTask [of c tid nid now t] show ?thesis
    by (auto simp: CompleteTask)
next
  case (UnregisterNode nid)
  then show ?thesis by (simp add: taskObj_unregisterNode)
next
  case (LivenessCheck timer now)
  then show ?thesis by (simp add: taskObj_fireHeartbeatTimer)
next
  case (ScheduledCompletion i now)
  from taskObj_fireCompletion [of c i now t] show ?thesis
    by (auto simp: ScheduledCompletion)
qed

theorem task_status_after_step_witness:
  "taskStatus (taskObj c_completed 0) = Completed \<and>
   taskStatus (taskObj (step c_completed (CompleteTask ''t2'' ''n1'' 200)) 0) = Completed \<and>
   findCapableNodes c_completed 0 = [] \<and>
   taskStatus (taskObj (step c_completed (CreateTask 0)) 0) = Failed \<and>
   taskStatus (taskObj c_failed 0) = Failed \<and>
   completes (Heartbeat ''n1'' 100) = False \<and>
   taskStatus (taskObj (step c_failed (Heartbeat ''n1'' 100)) 0) = Failed"
proof -
  have compl: "taskStatus (taskObj c_completed 0) = Completed" by code_simp
  have failed: "taskStatus (taskObj c_failed 0) = Failed" by code_simp
  have none: "findCapableNodes c_completed 0 = []" by code_simp
  from task_status_after_step [of c_completed 0 "CompleteTask ''t2'' ''n1'' 200"] compl
  have a: "taskStatus (taskObj (step c_completed (CompleteTask ''t2'' ''n1'' 200)) 0) = Completed"
    by simp
  from task_status_after_step [of c_completed 0 "CreateTask 0"] compl none
  have b: "taskStatus (taskObj (step c_completed (CreateTask 0)) 0) = Failed" by simp
  from task_status_after_step [of c_failed 0 "Heartbeat ''n1'' 100"] failed
  have c: "taskStatus (taskObj (step c_failed (Heartbeat ''n1'' 100)) 0) = Failed" by simp
  from compl a none b failed c show ?thesis by simp
qed

section \<open>Completion of a missing task or node\<close>

text \<open>
  C10. \<open>completeTask\<close> with a task id that is not in the task map, or a node id that is not
  in the node map, returns the state unchanged: no task field, no node field, no event. In
  particular it is a no-op after \<open>unregisterNode\<close> of its node, and a scheduled completion
  that fires after its node was unregistered leaves every task object (status and
  \<open>completedAt\<close> included), every node object and the emitted events as they were.
\<close>

theorem completeTask_missing_noop:
  "(map_of (tasks c) tid = None \<or> map_of (nodes c) nid = None \<longrightarrow>
      completeTask c tid nid now = c) \<and>
   completeTask (unregisterNode c nid) tid nid now = unregisterNode c nid \<and>
   (i < length (timeouts c) \<and> snd (timeouts c ! i) = nid \<longrightarrow>
      taskObj (fireCompletion (unregisterNode c nid) i now) = taskObj c \<and>
      nodeObj (fireCompletion (unregisterNode c nid) i now) = nodeObj c \<and>
      emitted (fireCompletion (unregisterNode c nid) i now) = emitted (unregisterNode c nid))"
proof -
  have noop: "completeTask s t nid now = s" if "map_of (nodes s) nid = None" for s t
    using that by (simp add: completeTask_def split: option.splits)
  have gone: "map_of (nodes (unregisterNode c nid)) nid = None"
    by (simp add: unregisterNode_def clearHeartbeat_def Let_def delete_conv' split: option.splits)
  have same: "taskObj (unregisterNode c nid) = taskObj c"
    "nodeObj (unregisterNode c nid) = nodeObj c"
    "timeouts (unregisterNode c nid) = timeouts c"
    by (simp_all add: unregisterNode_def clearHeartbeat_def Let_def split: option.splits)
  have a: "map_of (tasks c) tid = None \<or> map_of (nodes c) nid = None \<longrightarrow>
      completeTask c tid nid now = c"
    by (auto simp: completeTask_def split: option.splits)
  have b: "completeTask (unregisterNode c nid) tid nid now = unregisterNode c nid"
    using gone by (rule noop)
  have c: "taskObj (fireCompletion (unregisterNode c nid) i now) = taskObj c \<and>
      nodeObj (fireCompletion (unregisterNode c nid) i now) = nodeObj c \<and>
      emitted (fireCompletion (unregisterNode c nid) i now) = emitted (unregisterNode c nid)"
    if "i < length (timeouts c)" "snd (timeouts c ! i) = nid"
  proof -
    let ?u = "unregisterNode c nid"
    let ?u' = "?u\<lparr>timeouts := take i (timeouts ?u) @ drop (Suc i) (timeouts ?u)\<rparr>"
    have "map_of (nodes ?u') nid = None" using gone by simp
    then have "completeTask ?u' (fst (timeouts c ! i)) nid now = ?u'" by (rule noop)
    then have "fireCompletion ?u i now = ?u'"
      using that by (simp add: fireCompletion_def same)
    then show ?thesis by (simp add: same)
  qed
  from a b c show ?thesis by blast
qed

theorem completeTask_missing_noop_witness:
  "map_of (tasks c_reg1) ''t1'' = None \<and> completeTask c_reg1 ''t1'' ''n1'' 100 = c_reg1 \<and>
   (0::nat) < length (timeouts c_busy) \<and> snd (timeouts c_busy ! 0) = ''n1'' \<and>
   taskStatus (taskObj c_busy 0) = Pending \<and>
   taskStatus (taskObj (fireCompletion (unregisterNode c_busy ''n1'') 0 100) 0) = Pending \<and>
   completedAt (taskObj (fireCompletion (unregisterNode c_busy ''n1'') 0 100) 0) = None"
proof -
  have absent: "map_of (tasks c_reg1) ''t1'' = None" by code_simp
  have sched: "(0::nat) < length (timeouts c_busy)" "snd (timeouts c_busy ! 0) = ''n1''"
    by code_simp+
  have before: "taskStatus (taskObj c_busy 0) = Pending" "completedAt (taskObj c_busy 0) = None"
    by code_simp+
  from completeTask_missing_noop [of c_reg1 "''t1''" "''n1''" 100] absent
  have a: "completeTask c_reg1 ''t1'' ''n1'' 100 = c_reg1" by blast
  from completeTask_missing_noop [of c_busy "''t1''" "''n1''" 100 0] sched
  have "taskObj (fireCompletion (unregisterNode c_busy ''n1'') 0 100) = taskObj c_busy" by blast
  with absent a sched before show ?thesis by simp
qed

section \<open>Facts about the router\<close>

lemma channel_key_type:
  assumes "channel_key s t ty = channel_key s' t' ty'"
  shows "ty = ty'"
proof -
  from assms have "take 12 (rev (channel_key s t ty)) = take 12 (rev (channel_key s' t' ty'))"
    by simp
  then show ?thesis
    by (cases ty; cases ty') (simp_all add: channel_key_def)
qed

lemma hd_split_colon: "hd (str_split s CHR '':'') = org_prefix s"
  by (simp add: hd_str_split org_prefix_def)

lemma channels_loop_map_filter:
  "channels_loop r src tgts acc = acc @ List.map_filter (active_channel r src) tgts"
  by (induction tgts arbitrary: acc)
     (auto simp: List.map_filter_simps active_channel_def channel_key_def Let_def
           split: option.splits)

lemma findChannels_map_filter:
  "findChannels r task =
     List.map_filter (active_channel r (org_prefix (sourceNode task)))
       (map org_prefix (targetNodes task))"
  by (simp add: findChannels_def Let_def channels_loop_map_filter hd_split_colon)

lemma map_filter_Nil_iff: "List.map_filter f xs = [] \<longleftrightarrow> (\<forall>x \<in> set xs. f x = None)"
  by (induction xs) (auto split: option.splits)

lemma set_map_filter: "set (List.map_filter f xs) = {y. \<exists>x \<in> set xs. f x = Some y}"
  by (induction xs) (auto split: option.splits)

lemma findChannels_Nil_iff:
  "findChannels r task = [] \<longleftrightarrow>
     (\<forall>target \<in> set (targetNodes task).
        active_channel r (org_prefix (sourceNode task)) (org_prefix target) = None)"
  by (simp add: findChannels_map_filter map_filter_Nil_iff)

lemma findChannels_cong:
  "channels r' = channels r \<Longrightarrow> findChannels r' task = findChannels r task"
  by (simp add: findChannels_map_filter active_channel_def [abs_def])

lemma no_active_channel_iff: "no_active_channel r task \<longleftrightarrow> findChannels r task = []"
  by (simp add: no_active_channel_def findChannels_Nil_iff list_all_iff)

lemma route_known:
  assumes "source_known r task"
  shows "route r task =
           (if findChannels r task = []
            then Inr (r\<lparr>messageQueue := messageQueue r @ [task],
                        routerEmitted := routerEmitted r @ [TaskQueued task]\<rparr>)
            else Inr (r\<lparr>routerEmitted := routerEmitted r @ [TaskRouting task (hd (findChannels r task))],
                        deliveries := deliveries r @ [(task, hd (findChannels r task))]\<rparr>))"
  using assms
  by (auto simp: route_def source_known_def hd_split_colon split: list.splits)

lemma channels_route: "route r task = Inr r' \<Longrightarrow> channels r' = channels r"
  by (auto simp: route_def split: option.splits list.splits)

lemma organizations_route: "route r task = Inr r' \<Longrightarrow> organizations r' = organizations r"
  by (auto simp: route_def split: option.splits list.splits)

lemma map_fst_update_present:
  "map_of al k \<noteq> None \<Longrightarrow> map fst (AList.update k v al) = map fst al"
  by (induction al) auto

lemma channels_wf_update:
  "channels_wf r \<Longrightarrow>
   k = channel_key (sourceOrgId ch) (targetOrgId ch) (channelType ch) \<Longrightarrow>
   channels_wf (r\<lparr>channels := AList.update k ch (channels r)\<rparr>)"
  using set_update_subset [of k ch "channels r"]
  by (auto simp: channels_wf_def list_all_iff)

lemma channels_wf_new: "channels_wf new_router"
  by (simp add: channels_wf_def new_router_def)

lemma channels_wf_createChannel:
  assumes "channels_wf r"
  shows "channels_wf (snd (createChannel r src tgt ty))"
proof -
  let ?ch = "\<lparr>sourceOrgId = src, targetOrgId = tgt, channelType = ty, channelStatus = Active\<rparr>"
  have "channels_wf (r\<lparr>channels := AList.update (channel_key src tgt ty) ?ch (channels r)\<rparr>)"
    using assms by (rule channels_wf_update) simp
  then show ?thesis
    by (simp add: createChannel_def Let_def channel_key_def channels_wf_def)
qed

lemma channels_wf_lookup:
  "channels_wf r \<Longrightarrow> map_of (channels r) k = Some ch \<Longrightarrow>
   k = channel_key (sourceOrgId ch) (targetOrgId ch) (channelType ch)"
  by (auto simp: channels_wf_def list_all_iff dest!: map_of_SomeD)

lemma channels_wf_pauseChannel:
  assumes "channels_wf r"
  shows "channels_wf (pauseChannel r cid)"
proof (cases "map_of (channels r) cid")
  case None
  with assms show ?thesis by (simp add: pauseChannel_def)
next
  case (Some ch)
  from channels_wf_lookup [OF assms Some]
  have "channels_wf (r\<lparr>channels := AList.update cid (ch\<lparr>channelStatus := Paused\<rparr>) (channels r)\<rparr>)"
    by (intro channels_wf_update [OF assms]) simp
  with Some show ?thesis by (simp add: pauseChannel_def channels_wf_def)
qed

lemma findChannels_createChannel_other:
  assumes "ty \<noteq> Agent2agent"
  shows "findChannels (snd (createChannel r src tgt ty)) task = findChannels r task"
proof -
  have "active_channel (snd (createChannel r src tgt ty)) = active_channel r"
  proof (intro ext)
    fix s t
    have "channel_key s t Agent2agent \<noteq> channel_key src tgt ty"
      using assms channel_key_type by blast
    moreover have "channels (snd (createChannel r src tgt ty)) =
        AList.update (channel_key src tgt ty)
          \<lparr>sourceOrgId = src, targetOrgId = tgt, channelType = ty, channelStatus = Active\<rparr>
          (channels r)"
      by (simp add: createChannel_def Let_def channel_key_def)
    ultimately show "active_channel (snd (createChannel r src tgt ty)) s t = active_channel r s t"
      by (simp add: active_channel_def update_conv')
  qed
  then show ?thesis by (simp add: findChannels_map_filter)
qed

lemma channels_wf_route: "channels_wf r \<Longrightarrow> route r task = Inr r' \<Longrightarrow> channels_wf r'"
  using channels_route [of r task r'] by (simp add: channels_wf_def)

lemma channels_wf_registerOrganization: "channels_wf r \<Longrightarrow> channels_wf (registerOrganization r org)"
  by (simp add: channels_wf_def registerOrganization_def)

lemma processQueue_empty: "messageQueue r = [] \<Longrightarrow> processQueue r = r"
  by (simp add: processQueue_def)

lemma processQueue_known:
  assumes "messageQueue r = task # rest" and "source_known r task"
  shows "processQueue r =
           (if findChannels r task = []
            then r\<lparr>messageQueue := rest @ [task],
                   routerEmitted := routerEmitted r @ [TaskQueued task],
                   drains := drains r @ [None]\<rparr>
            else r\<lparr>messageQueue := rest,
                   routerEmitted := routerEmitted r @ [TaskRouting task (hd (findChannels r task))],
                   deliveries := deliveries r @ [(task, hd (findChannels r task))],
                   drains := drains r @ [None]\<rparr>)"
proof -
  let ?r1 = "r\<lparr>messageQueue := rest\<rparr>"
  have known: "source_known ?r1 task" using assms(2) by (simp add: source_known_def)
  have fc: "findChannels ?r1 task = findChannels r task"
    by (rule findChannels_cong) simp
  show ?thesis
    using assms(1) by (simp add: processQueue_def route_known [OF known] fc)
qed

lemma processQueue_keeps:
  "channels (processQueue r) = channels r \<and> organizations (processQueue r) = organizations r"
proof (cases "messageQueue r")
  case Nil
  then show ?thesis by (simp add: processQueue_empty)
next
  case (Cons task rest)
  show ?thesis
  proof (cases "route (r\<lparr>messageQueue := rest\<rparr>) task")
    case (Inl e)
    with Cons show ?thesis by (simp add: processQueue_def)
  next
    case (Inr r')
    with Cons channels_route [OF Inr] organizations_route [OF Inr]
    show ?thesis by (simp add: processQueue_def)
  qed
qed

lemma resumeProcessQueue_keeps:
  "channels (resumeProcessQueue r) = channels r \<and>
   organizations (resumeProcessQueue r) = organizations r"
  using processQueue_keeps
  by (simp add: resumeProcessQueue_def split: list.splits option.splits)

lemma runMicrotasks_keeps:
  assumes "runMicrotasks r = Some r'"
  shows "channels r' = channels r \<and> organizations r' = organizations r"
  using assms
proof (induction rule: runMicrotasks.raw_induct [rotated 1, consumes 1])
  case (1 run r r')
  show ?case
  proof (cases "drains r = []")
    case True
    with 1(2) show ?thesis by simp
  next
    case False
    with 1(2) have "run (resumeProcessQueue r) = Some r'" by simp
    with 1(1) resumeProcessQueue_keeps [of r] show ?thesis by simp
  qed
qed

lemma channels_resumeChannel:
  "channels (resumeChannel r cid) =
     (case map_of (channels r) cid of
        None \<Rightarrow> channels r
      | Some ch \<Rightarrow> AList.update cid (ch\<lparr>channelStatus := Active\<rparr>) (channels r))"
  by (simp add: resumeChannel_def processQueue_keeps split: option.splits)

lemma channels_wf_resumeChannel:
  assumes "channels_wf r"
  shows "channels_wf (resumeChannel r cid)"
proof (cases "map_of (channels r) cid")
  case None
  with assms show ?thesis by (simp add: resumeChannel_def)
next
  case (Some ch)
  from channels_wf_lookup [OF assms Some]
  have "channels_wf (r\<lparr>channels := AList.update cid (ch\<lparr>channelStatus := Active\<rparr>) (channels r)\<rparr>)"
    by (intro channels_wf_update [OF assms]) simp
  with Some show ?thesis by (simp add: channels_wf_def channels_resumeChannel)
qed

lemma channels_wf_resumeProcessQueue: "channels_wf r \<Longrightarrow> channels_wf (resumeProcessQueue r)"
  by (simp add: channels_wf_def resumeProcessQueue_keeps)

lemma channels_wf_runMicrotasks: "channels_wf r \<Longrightarrow> runMicrotasks r = Some r' \<Longrightarrow> channels_wf r'"
  using runMicrotasks_keeps [of r r'] by (simp add: channels_wf_def)

lemma no_active_channel_cong:
  "channels r' = channels r \<Longrightarrow> no_active_channel r' t = no_active_channel r t"
  using findChannels_cong [of r' r t] by (simp add: no_active_channel_iff)

lemma source_known_cong:
  "organizations r' = organizations r \<Longrightarrow> source_known r' t = source_known r t"
  by (simp add: source_known_def)

lemma runMicrotasks_drains:
  assumes "\<forall>t \<in> set (messageQueue r). source_known r t \<and> findChannels r t \<noteq> []"
    and "messageQueue r \<noteq> [] \<longrightarrow> None \<in> set (drains r)"
  shows "\<exists>r'. runMicrotasks r = Some r' \<and> messageQueue r' = [] \<and> drains r' = [] \<and>
              deliveries r' =
                deliveries r @ map (\<lambda>t. (t, hd (findChannels r t))) (messageQueue r) \<and>
              routerEmitted r' =
                routerEmitted r @ map (\<lambda>t. TaskRouting t (hd (findChannels r t))) (messageQueue r)"
  using assms
proof (induction "length (messageQueue r) + length (drains r)" arbitrary: r rule: less_induct)
  case less
  show ?case
  proof (cases "drains r")
    case Nil
    with less.prems(2) have "messageQueue r = []" by auto
    moreover from Nil have "runMicrotasks r = Some r" by (subst runMicrotasks.simps) simp
    ultimately show ?thesis using Nil by simp
  next
    case (Cons awaited others)
    let ?r2 = "resumeProcessQueue r"
    have run: "runMicrotasks r = runMicrotasks ?r2"
      using Cons by (subst runMicrotasks.simps) simp
    have step: "length (messageQueue ?r2) + length (drains ?r2) <
                  length (messageQueue r) + length (drains r) \<and>
                (\<forall>t \<in> set (messageQueue ?r2). source_known ?r2 t \<and> findChannels ?r2 t \<noteq> []) \<and>
                (messageQueue ?r2 \<noteq> [] \<longrightarrow> None \<in> set (drains ?r2)) \<and>
                (\<forall>t. findChannels ?r2 t = findChannels r t) \<and>
                deliveries ?r2 @ map (\<lambda>t. (t, hd (findChannels r t))) (messageQueue ?r2) =
                  deliveries r @ map (\<lambda>t. (t, hd (findChannels r t))) (messageQueue r) \<and>
                routerEmitted ?r2 @ map (\<lambda>t. TaskRouting t (hd (findChannels r t))) (messageQueue ?r2) =
                  routerEmitted r @ map (\<lambda>t. TaskRouting t (hd (findChannels r t))) (messageQueue r)"
    proof (cases awaited)
      case (Some e)
      then have r2: "?r2 = r\<lparr>drains := others, unhandled := unhandled r @ [e]\<rparr>"
        using Cons by (simp add: resumeProcessQueue_def)
      have fc: "findChannels ?r2 t = findChannels r t" for t
        unfolding r2 by (rule findChannels_cong) simp
      from less.prems Cons Some show ?thesis
        by (auto simp: fc) (simp_all add: r2 source_known_def)
    next
      case None
      let ?r1 = "r\<lparr>drains := others\<rparr>"
      from None Cons have r2: "?r2 = processQueue ?r1" by (simp add: resumeProcessQueue_def)
      have fc1: "findChannels ?r1 t = findChannels r t" for t
        by (rule findChannels_cong) simp
      show ?thesis
      proof (cases "messageQueue r")
        case Nil
        then have "?r2 = ?r1" by (simp add: r2 processQueue_empty)
        with Nil Cons fc1 show ?thesis by simp
      next
        case (Cons task rest)
        with less.prems(1) have known: "source_known ?r1 task" and act: "findChannels r task \<noteq> []"
          by (simp_all add: source_known_def)
        have q1: "messageQueue ?r1 = task # rest" using Cons by simp
        have eq: "?r2 = ?r1\<lparr>messageQueue := rest,
                     routerEmitted := routerEmitted ?r1 @ [TaskRouting task (hd (findChannels r task))],
                     deliveries := deliveries ?r1 @ [(task, hd (findChannels r task))],
                     drains := drains ?r1 @ [None]\<rparr>"
          unfolding r2 using processQueue_known [OF q1 known] act by (simp add: fc1)
        have fc: "findChannels ?r2 t = findChannels r t" for t
          unfolding eq by (rule findChannels_cong) simp
        have kn: "source_known ?r2 t = source_known r t" for t
          unfolding eq by (simp add: source_known_def)
        from less.prems(1) Cons \<open>drains r = awaited # others\<close> show ?thesis
          by (simp add: fc kn) (simp add: eq)
      qed
    qed
    then have smaller: "length (messageQueue ?r2) + length (drains ?r2) <
        length (messageQueue r) + length (drains r)"
      and all: "\<forall>t \<in> set (messageQueue ?r2). source_known ?r2 t \<and> findChannels ?r2 t \<noteq> []"
      and live: "messageQueue ?r2 \<noteq> [] \<longrightarrow> None \<in> set (drains ?r2)"
      and fc: "\<And>t. findChannels ?r2 t = findChannels r t"
      and del: "deliveries ?r2 @ map (\<lambda>t. (t, hd (findChannels r t))) (messageQueue ?r2) =
                  deliveries r @ map (\<lambda>t. (t, hd (findChannels r t))) (messageQueue r)"
      and ev: "routerEmitted ?r2 @ map (\<lambda>t. TaskRouting t (hd (findChannels r t))) (messageQueue ?r2) =
                  routerEmitted r @ map (\<lambda>t. TaskRouting t (hd (findChannels r t))) (messageQueue r)"
      by blast+
    from less.hyps [OF smaller all live] obtain r' where
      "runMicrotasks ?r2 = Some r'" "messageQueue r' = []" "drains r' = []"
      "deliveries r' = deliveries ?r2 @ map (\<lambda>t. (t, hd (findChannels ?r2 t))) (messageQueue ?r2)"
      "routerEmitted r' =
         routerEmitted ?r2 @ map (\<lambda>t. TaskRouting t (hd (findChannels ?r2 t))) (messageQueue ?r2)"
      by blast
    with run del ev show ?thesis by (simp add: fc)
  qed
qed


lemma runMicrotasks_blocked:
  assumes "runMicrotasks r = Some r'"
  shows "\<not> ((\<forall>t \<in> set (messageQueue r). source_known r t) \<and>
            (\<exists>t \<in> set (messageQueue r). no_active_channel r t) \<and>
            None \<in> set (drains r))"
  using assms
proof (induction rule: runMicrotasks.raw_induct [rotated 1, consumes 1])
  case (1 run r r')
  show ?case
  proof
    assume inv: "(\<forall>t \<in> set (messageQueue r). source_known r t) \<and>
                 (\<exists>t \<in> set (messageQueue r). no_active_channel r t) \<and>
                 None \<in> set (drains r)"
    then obtain b where b: "b \<in> set (messageQueue r)" "no_active_channel r b" by blast
    from inv obtain awaited others where d: "drains r = awaited # others"
      by (cases "drains r") auto
    let ?r2 = "resumeProcessQueue r"
    from 1(2) d have "run ?r2 = Some r'" by simp
    with 1(1) have ninv: "\<not> ((\<forall>t \<in> set (messageQueue ?r2). source_known ?r2 t) \<and>
            (\<exists>t \<in> set (messageQueue ?r2). no_active_channel ?r2 t) \<and>
            None \<in> set (drains ?r2))" by blast
    have sk: "source_known ?r2 t = source_known r t" for t
      by (rule source_known_cong) (simp add: resumeProcessQueue_keeps)
    have na: "no_active_channel ?r2 t = no_active_channel r t" for t
      by (rule no_active_channel_cong) (simp add: resumeProcessQueue_keeps)
    have "b \<in> set (messageQueue ?r2) \<and> set (messageQueue ?r2) \<subseteq> set (messageQueue r) \<and>
          None \<in> set (drains ?r2)"
    proof (cases awaited)
      case (Some e)
      with d have "?r2 = r\<lparr>drains := others, unhandled := unhandled r @ [e]\<rparr>"
        by (simp add: resumeProcessQueue_def)
      moreover from inv d Some have "None \<in> set others" by auto
      ultimately show ?thesis using b(1) by simp
    next
      case None
      let ?r1 = "r\<lparr>drains := others\<rparr>"
      from None d have r2: "?r2 = processQueue ?r1" by (simp add: resumeProcessQueue_def)
      from b(1) obtain task rest where q: "messageQueue r = task # rest"
        by (cases "messageQueue r") auto
      then have q1: "messageQueue ?r1 = task # rest" by simp
      from inv q have known: "source_known ?r1 task" by (simp add: source_known_def)
      have fc1: "findChannels ?r1 task = findChannels r task"
        by (rule findChannels_cong) simp
      show ?thesis
      proof (cases "findChannels r task = []")
        case True
        from processQueue_known [OF q1 known] True
        have "messageQueue ?r2 = rest @ [task]" and "drains ?r2 = others @ [None]"
          by (simp_all add: r2 fc1)
        with q b(1) show ?thesis by auto
      next
        case False
        then have "\<not> no_active_channel r task" by (simp add: no_active_channel_iff)
        with b q have "b \<in> set rest" by auto
        moreover from processQueue_known [OF q1 known] False
        have "messageQueue ?r2 = rest" and "drains ?r2 = others @ [None]"
          by (simp_all add: r2 fc1)
        ultimately show ?thesis using q by auto
      qed
    qed
    with b(2) inv ninv show False by (auto simp: sk na)
  qed
qed

lemma runMicrotasks_livelock:
  assumes "\<forall>t \<in> set (messageQueue r). source_known r t"
    and "\<exists>t \<in> set (messageQueue r). no_active_channel r t"
    and "None \<in> set (drains r)"
  shows "runMicrotasks r = None"
proof (cases "runMicrotasks r")
  case None
  then show ?thesis .
next
  case (Some r')
  from runMicrotasks_blocked [OF Some] assms show ?thesis by blast
qed

section \<open>Resuming a channel\<close>

text \<open>
  C2 (as stated, refuted). The claim says that \<open>resumeChannel\<close> drains the whole queue and
  that, when it returns, the queue holds exactly the tasks without an active channel. In
  the router \<open>r_two\<close> the tasks \<open>t10\<close> and \<open>t11\<close> wait for the paused channel from \<open>o1\<close>
  to \<open>o2\<close>. When \<open>resumeChannel\<close> on that channel returns, only \<open>t10\<close> has been routed:
  \<open>t11\<close> is still queued, although its source is registered and its channel is active.
  In the router \<open>r_stuck\<close> the queued task \<open>t10\<close> has no channel; after \<open>resumeChannel\<close> on
  the channel from \<open>o1\<close> to \<open>o3\<close> the suspended \<open>processQueue\<close> shifts the task and
  \<open>route\<close> appends it again at every resumption, and the microtasks never run out.
\<close>

theorem resumeChannel_drain_counterexample:
  "messageQueue r_two = [t10, t11] \<and>
   messageQueue (resumeChannel r_two ''o1->o2:agent2agent'') = [t11] \<and>
   source_known (resumeChannel r_two ''o1->o2:agent2agent'') t11 \<and>
   \<not> no_active_channel (resumeChannel r_two ''o1->o2:agent2agent'') t11 \<and>
   messageQueue r_stuck = [t10] \<and>
   source_known r_stuck t10 \<and>
   no_active_channel (resumeChannel r_stuck ''o1->o3:agent2agent'') t10 \<and>
   runMicrotasks (resumeChannel r_stuck ''o1->o3:agent2agent'') = None"
proof -
  let ?r = "resumeChannel r_stuck ''o1->o3:agent2agent''"
  have two: "messageQueue r_two = [t10, t11]"
    "messageQueue (resumeChannel r_two ''o1->o2:agent2agent'') = [t11]"
    "source_known (resumeChannel r_two ''o1->o2:agent2agent'') t11"
    "\<not> no_active_channel (resumeChannel r_two ''o1->o2:agent2agent'') t11"
    by code_simp+
  have q0: "messageQueue r_stuck = [t10]" and k0: "source_known r_stuck t10" by code_simp+
  have q: "messageQueue ?r = [t10]" and d: "drains ?r = [None]" by code_simp+
  have known: "source_known ?r t10" and blocked: "no_active_channel ?r t10" by code_simp+
  have "runMicrotasks ?r = None"
    by (rule runMicrotasks_livelock) (simp_all add: q d known blocked)
  with two q0 k0 blocked show ?thesis by simp
qed

text \<open>
  C2 (amended). \<open>resumeChannel\<close> on an existing channel always returns. It sets the channel
  active and emits \<open>channel:resumed\<close>; with an empty queue it does nothing else. Otherwise
  it re-invokes \<open>route\<close> on the first queued task only (a task with a registered source and
  no active channel goes back to the tail) and leaves \<open>processQueue\<close> suspended, to go on
  detached, one queued task at each resumption. When every queued task has a registered
  source and, with the channel resumed, an active \<open>agent2agent\<close> channel to one of its target
  organizations, the detached drain ends with the queue empty, having re-invoked \<open>route\<close>
  on every queued task in FIFO order.
\<close>

theorem resumeChannel_first_task_then_detached:
  assumes "map_of (channels r) cid = Some ch"
  shows
    "channels (resumeChannel r cid) =
       AList.update cid (ch\<lparr>channelStatus := Active\<rparr>) (channels r) \<and>
     (messageQueue r = [] \<longrightarrow>
        resumeChannel r cid =
          r\<lparr>channels := AList.update cid (ch\<lparr>channelStatus := Active\<rparr>) (channels r),
            routerEmitted := routerEmitted r @ [ChannelResumed (ch\<lparr>channelStatus := Active\<rparr>)]\<rparr>) \<and>
     (\<forall>task rest. messageQueue r = task # rest \<and> source_known r task \<longrightarrow>
        messageQueue (resumeChannel r cid) =
          (if no_active_channel (resumeChannel r cid) task then rest @ [task] else rest) \<and>
        routerEmitted (resumeChannel r cid) =
          routerEmitted r @
            [ChannelResumed (ch\<lparr>channelStatus := Active\<rparr>),
             if no_active_channel (resumeChannel r cid) task then TaskQueued task
             else TaskRouting task (hd (findChannels (resumeChannel r cid) task))] \<and>
        drains (resumeChannel r cid) = drains r @ [None]) \<and>
     ((\<forall>t \<in> set (messageQueue r).
          source_known r t \<and> \<not> no_active_channel (resumeChannel r cid) t) \<longrightarrow>
        (\<exists>r'. runMicrotasks (resumeChannel r cid) = Some r' \<and>
              messageQueue r' = [] \<and> drains r' = [] \<and>
              deliveries r' =
                deliveries r @
                  map (\<lambda>t. (t, hd (findChannels (resumeChannel r cid) t))) (messageQueue r) \<and>
              routerEmitted r' =
                routerEmitted r @ ChannelResumed (ch\<lparr>channelStatus := Active\<rparr>) #
                  map (\<lambda>t. TaskRouting t (hd (findChannels (resumeChannel r cid) t)))
                    (messageQueue r)))"
proof -
  let ?r1 = "r\<lparr>channels := AList.update cid (ch\<lparr>channelStatus := Active\<rparr>) (channels r),
               routerEmitted := routerEmitted r @ [ChannelResumed (ch\<lparr>channelStatus := Active\<rparr>)]\<rparr>"
  let ?r2 = "resumeChannel r cid"
  have res: "?r2 = processQueue ?r1" using assms by (simp add: resumeChannel_def)
  have ch: "channels ?r2 = channels ?r1" by (simp add: res processQueue_keeps)
  have fc: "findChannels ?r2 t = findChannels ?r1 t" for t
    using ch by (rule findChannels_cong)
  have na: "no_active_channel ?r2 t \<longleftrightarrow> findChannels ?r1 t = []" for t
    by (simp add: no_active_channel_iff fc)
  have a: "channels ?r2 = AList.update cid (ch\<lparr>channelStatus := Active\<rparr>) (channels r)"
    using ch by simp
  have b: "?r2 = ?r1" if "messageQueue r = []"
    using that by (simp add: res processQueue_empty)
  have first: "?r2 =
      (if findChannels ?r1 task = []
       then ?r1\<lparr>messageQueue := rest @ [task],
                routerEmitted := routerEmitted ?r1 @ [TaskQueued task],
                drains := drains ?r1 @ [None]\<rparr>
       else ?r1\<lparr>messageQueue := rest,
                routerEmitted := routerEmitted ?r1 @ [TaskRouting task (hd (findChannels ?r1 task))],
                deliveries := deliveries ?r1 @ [(task, hd (findChannels ?r1 task))],
                drains := drains ?r1 @ [None]\<rparr>)"
    if "messageQueue r = task # rest" "source_known r task" for task rest
  proof -
    from that have "messageQueue ?r1 = task # rest" "source_known ?r1 task"
      by (simp_all add: source_known_def)
    then show ?thesis unfolding res by (rule processQueue_known)
  qed
  have c: "messageQueue ?r2 = (if no_active_channel ?r2 task then rest @ [task] else rest) \<and>
        routerEmitted ?r2 =
          routerEmitted r @
            [ChannelResumed (ch\<lparr>channelStatus := Active\<rparr>),
             if no_active_channel ?r2 task then TaskQueued task
             else TaskRouting task (hd (findChannels ?r2 task))] \<and>
        drains ?r2 = drains r @ [None]"
    if "messageQueue r = task # rest" "source_known r task" for task rest
  proof (cases "findChannels ?r1 task = []")
    case True
    with first [OF that] have "?r2 = ?r1\<lparr>messageQueue := rest @ [task],
                routerEmitted := routerEmitted ?r1 @ [TaskQueued task],
                drains := drains ?r1 @ [None]\<rparr>" by simp
    then have "messageQueue ?r2 = rest @ [task]"
      "routerEmitted ?r2 = routerEmitted r @ [ChannelResumed (ch\<lparr>channelStatus := Active\<rparr>), TaskQueued task]"
      "drains ?r2 = drains r @ [None]" by simp_all
    with True show ?thesis by (simp add: na)
  next
    case False
    with first [OF that] have "?r2 = ?r1\<lparr>messageQueue := rest,
                routerEmitted := routerEmitted ?r1 @ [TaskRouting task (hd (findChannels ?r1 task))],
                deliveries := deliveries ?r1 @ [(task, hd (findChannels ?r1 task))],
                drains := drains ?r1 @ [None]\<rparr>" by simp
    then have "messageQueue ?r2 = rest"
      "routerEmitted ?r2 = routerEmitted r @
         [ChannelResumed (ch\<lparr>channelStatus := Active\<rparr>), TaskRouting task (hd (findChannels ?r1 task))]"
      "drains ?r2 = drains r @ [None]" by simp_all
    with False show ?thesis by (simp add: na fc)
  qed
  have d: "\<exists>r'. runMicrotasks ?r2 = Some r' \<and> messageQueue r' = [] \<and> drains r' = [] \<and>
              deliveries r' =
                deliveries r @ map (\<lambda>t. (t, hd (findChannels ?r2 t))) (messageQueue r) \<and>
              routerEmitted r' =
                routerEmitted r @ ChannelResumed (ch\<lparr>channelStatus := Active\<rparr>) #
                  map (\<lambda>t. TaskRouting t (hd (findChannels ?r2 t))) (messageQueue r)"
    if all: "\<forall>t \<in> set (messageQueue r). source_known r t \<and> \<not> no_active_channel ?r2 t"
  proof (cases "messageQueue r")
    case Nil
    have "\<exists>r'. runMicrotasks ?r1 = Some r' \<and> messageQueue r' = [] \<and> drains r' = [] \<and>
              deliveries r' =
                deliveries ?r1 @ map (\<lambda>t. (t, hd (findChannels ?r1 t))) (messageQueue ?r1) \<and>
              routerEmitted r' =
                routerEmitted ?r1 @ map (\<lambda>t. TaskRouting t (hd (findChannels ?r1 t))) (messageQueue ?r1)"
      by (rule runMicrotasks_drains) (simp_all add: Nil)
    with Nil b show ?thesis by simp
  next
    case (Cons task rest)
    with all have known: "source_known r task" and act: "findChannels ?r1 task \<noteq> []"
      by (simp_all add: na)
    from first [OF Cons known] act
    have eq: "?r2 = ?r1\<lparr>messageQueue := rest,
                routerEmitted := routerEmitted ?r1 @ [TaskRouting task (hd (findChannels ?r1 task))],
                deliveries := deliveries ?r1 @ [(task, hd (findChannels ?r1 task))],
                drains := drains ?r1 @ [None]\<rparr>" by simp
    then have fields: "messageQueue ?r2 = rest" "drains ?r2 = drains r @ [None]"
      "deliveries ?r2 = deliveries r @ [(task, hd (findChannels ?r1 task))]"
      "routerEmitted ?r2 = routerEmitted r @
         [ChannelResumed (ch\<lparr>channelStatus := Active\<rparr>), TaskRouting task (hd (findChannels ?r1 task))]"
      "organizations ?r2 = organizations r"
      by simp_all
    have "\<exists>r'. runMicrotasks ?r2 = Some r' \<and> messageQueue r' = [] \<and> drains r' = [] \<and>
              deliveries r' =
                deliveries ?r2 @ map (\<lambda>t. (t, hd (findChannels ?r2 t))) (messageQueue ?r2) \<and>
              routerEmitted r' =
                routerEmitted ?r2 @ map (\<lambda>t. TaskRouting t (hd (findChannels ?r2 t))) (messageQueue ?r2)"
    proof (rule runMicrotasks_drains)
      show "\<forall>t \<in> set (messageQueue ?r2). source_known ?r2 t \<and> findChannels ?r2 t \<noteq> []"
        using all Cons by (simp add: fields source_known_def no_active_channel_iff)
      show "messageQueue ?r2 \<noteq> [] \<longrightarrow> None \<in> set (drains ?r2)"
        by (simp add: fields)
    qed
    then show ?thesis by (simp add: fields Cons fc)
  qed
  from a b c d show ?thesis by blast
qed

theorem resumeChannel_first_task_then_detached_witness:
  "map_of (channels r_two) ''o1->o2:agent2agent'' =
     Some \<lparr>sourceOrgId = ''o1'', targetOrgId = ''o2'', channelType = Agent2agent,
           channelStatus = Paused\<rparr> \<and>
   messageQueue r_two = [t10, t11] \<and>
   list_all (\<lambda>t. source_known r_two t \<and>
                  \<not> no_active_channel (resumeChannel r_two ''o1->o2:agent2agent'') t)
     (messageQueue r_two) \<and>
   messageQueue (resumeChannel r_two ''o1->o2:agent2agent'') = [t11] \<and>
   drains (resumeChannel r_two ''o1->o2:agent2agent'') = [None] \<and>
   map_option messageQueue (runMicrotasks (resumeChannel r_two ''o1->o2:agent2agent'')) = Some [] \<and>
   map_option (\<lambda>r. map fst (deliveries r))
     (runMicrotasks (resumeChannel r_two ''o1->o2:agent2agent'')) = Some [t10, t11]"
proof -
  let ?cid = "''o1->o2:agent2agent''"
  let ?ch = "\<lparr>sourceOrgId = ''o1'', targetOrgId = ''o2'', channelType = Agent2agent,
               channelStatus = Paused\<rparr>"
  have lk: "map_of (channels r_two) ?cid = Some ?ch" by code_simp
  have q: "messageQueue r_two = [t10, t11]" by code_simp
  have k: "source_known r_two t10" by code_simp
  have all: "list_all (\<lambda>t. source_known r_two t \<and> \<not> no_active_channel (resumeChannel r_two ?cid) t)
      (messageQueue r_two)" by code_simp
  have d0: "drains r_two = []" and del0: "deliveries r_two = []" by code_simp+
  have act: "\<not> no_active_channel (resumeChannel r_two ?cid) t10" by code_simp
  note inst = resumeChannel_first_task_then_detached [OF lk]
  from inst q k act d0
  have first: "messageQueue (resumeChannel r_two ?cid) = [t11]"
    "drains (resumeChannel r_two ?cid) = [None]" by simp_all
  from inst all obtain r' where "runMicrotasks (resumeChannel r_two ?cid) = Some r'"
    "messageQueue r' = []"
    "deliveries r' = deliveries r_two @
       map (\<lambda>t. (t, hd (findChannels (resumeChannel r_two ?cid) t))) (messageQueue r_two)"
    unfolding list_all_iff by blast
  then have "map_option messageQueue (runMicrotasks (resumeChannel r_two ?cid)) = Some []"
    "map_option (\<lambda>r. map fst (deliveries r)) (runMicrotasks (resumeChannel r_two ?cid)) =
       Some [t10, t11]"
    by (simp_all add: q del0)
  with lk q all first show ?thesis by simp
qed

section \<open>Routing\<close>

text \<open>
  C7. \<open>route\<close> results in an error exactly when the organization named by the prefix of
  \<open>task.sourceNode\<close> before the first colon is not registered; the error leaves no changed
  state behind and \<open>route\<close> never writes a field of the task. When the source is registered
  and no target organization has an active \<open>agent2agent\<close> channel from it, \<open>route\<close> appends
  the unchanged task to the one delivery queue, emits \<open>task:queued\<close> and returns normally.
\<close>

theorem route_error_iff_unknown_source:
  "(isl (route r task) \<longleftrightarrow> map_of (organizations r) (org_prefix (sourceNode task)) = None) \<and>
   (map_of (organizations r) (org_prefix (sourceNode task)) \<noteq> None \<and>
    (\<forall>target \<in> set (targetNodes task).
       active_channel r (org_prefix (sourceNode task)) (org_prefix target) = None) \<longrightarrow>
    route r task =
      Inr (r\<lparr>messageQueue := messageQueue r @ [task],
             routerEmitted := routerEmitted r @ [TaskQueued task]\<rparr>))"
proof -
  have a: "isl (route r task) \<longleftrightarrow> map_of (organizations r) (org_prefix (sourceNode task)) = None"
    by (simp add: route_def hd_split_colon split: option.splits list.splits)
  have b: "route r task =
      Inr (r\<lparr>messageQueue := messageQueue r @ [task],
             routerEmitted := routerEmitted r @ [TaskQueued task]\<rparr>)"
    if "map_of (organizations r) (org_prefix (sourceNode task)) \<noteq> None"
      and "\<forall>target \<in> set (targetNodes task).
             active_channel r (org_prefix (sourceNode task)) (org_prefix target) = None"
  proof -
    from that(2) have "findChannels r task = []" by (simp add: findChannels_Nil_iff)
    with that(1) show ?thesis by (auto simp: route_def hd_split_colon)
  qed
  from a b show ?thesis by blast
qed

theorem route_error_iff_unknown_source_witness:
  "map_of (organizations new_router) (org_prefix (sourceNode t10)) = None \<and>
   isl (route new_router t10) \<and>
   map_of (organizations r_org) (org_prefix (sourceNode t10)) \<noteq> None \<and>
   no_active_channel r_org t10 \<and>
   route r_org t10 =
     Inr (r_org\<lparr>messageQueue := [t10], routerEmitted := [OrgRegistered org1, TaskQueued t10]\<rparr>)"
proof -
  have unknown: "map_of (organizations new_router) (org_prefix (sourceNode t10)) = None"
    by code_simp
  have known: "map_of (organizations r_org) (org_prefix (sourceNode t10)) \<noteq> None"
    by code_simp
  have blocked: "no_active_channel r_org t10" by code_simp
  then have none: "\<forall>target \<in> set (targetNodes t10).
      active_channel r_org (org_prefix (sourceNode t10)) (org_prefix target) = None"
    by (simp add: no_active_channel_def list_all_iff)
  have q: "messageQueue r_org = []" and e: "routerEmitted r_org = [OrgRegistered org1]"
    by code_simp+
  from route_error_iff_unknown_source [of new_router t10] unknown
  have err: "isl (route new_router t10)" by blast
  from route_error_iff_unknown_source [of r_org t10] known none
  have "route r_org t10 =
      Inr (r_org\<lparr>messageQueue := messageQueue r_org @ [t10],
                 routerEmitted := routerEmitted r_org @ [TaskQueued t10]\<rparr>)" by blast
  with unknown err known blocked q e show ?thesis by simp
qed

text \<open>
  C8. Every channel that \<open>route\<close> matches is active and is the one stored under the
  identifier of (source organization, target organization, \<open>agent2agent\<close>), for the prefix of
  some entry of \<open>task.targetNodes\<close>; where every channel is stored under the identifier of
  its own triple (which all operations of the router maintain) it has the type
  \<open>agent2agent\<close>. Creating a channel of any other type, between whatever pair, leaves the
  matched channels as they were, and a task that would be queued is queued all the same.
\<close>

theorem findChannels_agent2agent_only:
  "(\<forall>ch \<in> set (findChannels r task).
      channelStatus ch = Active \<and>
      (\<exists>target \<in> set (targetNodes task).
         map_of (channels r)
           (channel_key (org_prefix (sourceNode task)) (org_prefix target) Agent2agent) = Some ch)) \<and>
   (channels_wf r \<longrightarrow> (\<forall>ch \<in> set (findChannels r task). channelType ch = Agent2agent)) \<and>
   (ty \<noteq> Agent2agent \<longrightarrow>
      findChannels (snd (createChannel r src tgt ty)) task = findChannels r task \<and>
      (source_known r task \<and> no_active_channel r task \<longrightarrow>
         route (snd (createChannel r src tgt ty)) task =
           Inr ((snd (createChannel r src tgt ty))
                  \<lparr>messageQueue := messageQueue r @ [task],
                   routerEmitted := routerEmitted (snd (createChannel r src tgt ty)) @ [TaskQueued task]\<rparr>)))"
proof -
  have a: "channelStatus ch = Active \<and>
      (\<exists>target \<in> set (targetNodes task).
         map_of (channels r)
           (channel_key (org_prefix (sourceNode task)) (org_prefix target) Agent2agent) = Some ch)"
    if "ch \<in> set (findChannels r task)" for ch
  proof -
    from that obtain target where t: "target \<in> set (targetNodes task)"
      and ac: "active_channel r (org_prefix (sourceNode task)) (org_prefix target) = Some ch"
      by (auto simp: findChannels_map_filter set_map_filter)
    from ac have "channelStatus ch = Active"
      and "map_of (channels r)
           (channel_key (org_prefix (sourceNode task)) (org_prefix target) Agent2agent) = Some ch"
      by (auto simp: active_channel_def split: option.splits if_splits)
    with t show ?thesis by blast
  qed
  have b: "channelType ch = Agent2agent" if "channels_wf r" "ch \<in> set (findChannels r task)" for ch
  proof -
    from a [OF that(2)] obtain k where "map_of (channels r) (channel_key (org_prefix (sourceNode task)) k Agent2agent) = Some ch"
      by blast
    from channels_wf_lookup [OF that(1) this] channel_key_type show ?thesis by metis
  qed
  have c: "findChannels (snd (createChannel r src tgt ty)) task = findChannels r task"
    if "ty \<noteq> Agent2agent"
    using that by (rule findChannels_createChannel_other)
  have d: "route (snd (createChannel r src tgt ty)) task =
           Inr ((snd (createChannel r src tgt ty))
                  \<lparr>messageQueue := messageQueue r @ [task],
                   routerEmitted := routerEmitted (snd (createChannel r src tgt ty)) @ [TaskQueued task]\<rparr>)"
    if "ty \<noteq> Agent2agent" "source_known r task" "no_active_channel r task"
  proof -
    let ?r' = "snd (createChannel r src tgt ty)"
    have "source_known ?r' task"
      using that(2) by (simp add: source_known_def createChannel_def Let_def)
    moreover have "findChannels ?r' task = []"
      using c [OF that(1)] that(3) by (simp add: no_active_channel_iff)
    moreover have "messageQueue ?r' = messageQueue r" by (simp add: createChannel_def Let_def)
    ultimately show ?thesis by (simp add: route_known)
  qed
  from a b c d show ?thesis by blast
qed

theorem findChannels_agent2agent_only_witness:
  "findChannels r_a2a t10 =
     [\<lparr>sourceOrgId = ''o1'', targetOrgId = ''o2'', channelType = Agent2agent,
       channelStatus = Active\<rparr>] \<and>
   channels_wf r_a2a \<and>
   list_all (\<lambda>ch. channelStatus ch = Active \<and> channelType ch = Agent2agent)
     (findChannels r_a2a t10) \<and>
   Org2org \<noteq> Agent2agent \<and> source_known r_org t10 \<and> no_active_channel r_org t10 \<and>
   findChannels (snd (createChannel r_org ''o1'' ''o2'' Org2org)) t10 = [] \<and>
   isl (route (snd (createChannel r_org ''o1'' ''o2'' Org2org)) t10) = False \<and>
   messageQueue (projr (route (snd (createChannel r_org ''o1'' ''o2'' Org2org)) t10)) = [t10]"
proof -
  have fc: "findChannels r_a2a t10 =
     [\<lparr>sourceOrgId = ''o1'', targetOrgId = ''o2'', channelType = Agent2agent,
       channelStatus = Active\<rparr>]" by code_simp
  have wf: "channels_wf r_a2a" by code_simp
  have ne: "Org2org \<noteq> Agent2agent" by simp
  have known: "source_known r_org t10" and none: "no_active_channel r_org t10"
    by code_simp+
  have empty: "findChannels r_org t10 = []" and q: "messageQueue r_org = []" by code_simp+
  from findChannels_agent2agent_only [of r_a2a t10] wf
  have a: "list_all (\<lambda>ch. channelStatus ch = Active \<and> channelType ch = Agent2agent)
      (findChannels r_a2a t10)"
    unfolding list_all_iff by blast
  from findChannels_agent2agent_only [of r_org t10 Org2org "''o1''" "''o2''"] ne known none
  have b: "findChannels (snd (createChannel r_org ''o1'' ''o2'' Org2org)) t10 = findChannels r_org t10"
    and c: "route (snd (createChannel r_org ''o1'' ''o2'' Org2org)) t10 =
           Inr ((snd (createChannel r_org ''o1'' ''o2'' Org2org))
                  \<lparr>messageQueue := messageQueue r_org @ [t10],
                   routerEmitted := routerEmitted (snd (createChannel r_org ''o1'' ''o2'' Org2org)) @
                     [TaskQueued t10]\<rparr>)"
    by blast+
  from fc wf a ne known none b c empty q show ?thesis by simp
qed

section \<open>Channel creation\<close>

text \<open>
  C9. \<open>createChannel\<close> returns the identifier of its triple, so two calls with the same
  triple return the same identifier in whatever states they are made. After a call the
  record stored under that identifier is the new one, with status active. In particular,
  when the channel is created, paused (its stored status is then paused) and created again,
  the stored status is active again, and the second call has overwritten the entry: the
  keys of the channel map are those after the first call.
\<close>

theorem createChannel_same_id_resets_status:
  "fst (createChannel r src tgt ty) = channel_key src tgt ty \<and>
   fst (createChannel r' src tgt ty) = fst (createChannel r src tgt ty) \<and>
   map_of (channels (snd (createChannel r' src tgt ty))) (channel_key src tgt ty) =
     Some \<lparr>sourceOrgId = src, targetOrgId = tgt, channelType = ty, channelStatus = Active\<rparr> \<and>
   map_of (channels (pauseChannel (snd (createChannel r src tgt ty)) (channel_key src tgt ty)))
       (channel_key src tgt ty) =
     Some \<lparr>sourceOrgId = src, targetOrgId = tgt, channelType = ty, channelStatus = Paused\<rparr> \<and>
   map_of (channels (snd (createChannel
         (pauseChannel (snd (createChannel r src tgt ty)) (channel_key src tgt ty)) src tgt ty)))
       (channel_key src tgt ty) =
     Some \<lparr>sourceOrgId = src, targetOrgId = tgt, channelType = ty, channelStatus = Active\<rparr> \<and>
   map fst (channels (snd (createChannel
         (pauseChannel (snd (createChannel r src tgt ty)) (channel_key src tgt ty)) src tgt ty))) =
     map fst (channels (snd (createChannel r src tgt ty)))"
proof -
  let ?k = "channel_key src tgt ty"
  let ?act = "\<lparr>sourceOrgId = src, targetOrgId = tgt, channelType = ty, channelStatus = Active\<rparr>"
  have id: "fst (createChannel s src tgt ty) = ?k" for s
    by (simp add: createChannel_def Let_def channel_key_def)
  have ch: "channels (snd (createChannel s src tgt ty)) = AList.update ?k ?act (channels s)" for s
    by (simp add: createChannel_def Let_def channel_key_def)
  have lk: "map_of (channels (snd (createChannel s src tgt ty))) ?k = Some ?act" for s
    by (simp add: ch update_conv')
  let ?r1 = "snd (createChannel r src tgt ty)"
  have p: "channels (pauseChannel ?r1 ?k) =
             AList.update ?k (?act\<lparr>channelStatus := Paused\<rparr>) (channels ?r1)"
    using lk [of r] by (simp add: pauseChannel_def)
  have paused: "map_of (channels (pauseChannel ?r1 ?k)) ?k =
      Some \<lparr>sourceOrgId = src, targetOrgId = tgt, channelType = ty, channelStatus = Paused\<rparr>"
    by (simp add: p update_conv')
  have keys: "map fst (channels (snd (createChannel (pauseChannel ?r1 ?k) src tgt ty))) =
      map fst (channels ?r1)"
  proof -
    have "map fst (channels (pauseChannel ?r1 ?k)) = map fst (channels ?r1)"
      unfolding p using lk [of r] by (intro map_fst_update_present) simp
    moreover have "map fst (AList.update ?k ?act (channels (pauseChannel ?r1 ?k))) =
        map fst (channels (pauseChannel ?r1 ?k))"
      using paused by (intro map_fst_update_present) simp
    ultimately show ?thesis by (simp add: ch)
  qed
  from id [of r] id [of r'] lk [of r'] paused lk [of "pauseChannel ?r1 ?k"] keys
  show ?thesis by simp
qed

end
